theory Spec2Isabelle
  imports Complex_Main "HOL-Library.Word" "HOL-Library.List_Lexorder" "HOL-Library.Char_ord"
    "HOL-Library.Sublist"
begin

section \<open>Values, types and memory\<close>

text \<open>
  The formatter of \<^verbatim>\<open>format.go\<close> walks a \<^verbatim>\<open>reflect.Value\<close>. The model keeps what
  the code reads of one: its kind (the constructor), its type (identity and the text of
  \<^verbatim>\<open>Type.String()\<close>), and its payload. Pointers, slices and maps refer to cells of an
  explicit store, so that a value can contain itself.
\<close>

type_synonym addr = nat

text \<open>
  The kinds of \<^verbatim>\<open>reflect\<close>; \<open>KInt\<close> is \<^verbatim>\<open>Int .. Int64\<close>, \<open>KUint\<close> is \<^verbatim>\<open>Uint .. Uint64\<close>
  and \<^verbatim>\<open>Uintptr\<close>, \<open>KFloat\<close> and \<open>KComplex\<close> are the two sizes of each.
\<close>

datatype kind =
    KInvalid | KBool | KInt | KUint | KFloat | KComplex | KString | KUnsafePointer
  | KInterface | KPointer | KArray | KSlice | KMap | KStruct | KFunc | KChan

record rtype =
  type_id :: nat
  type_String :: string
  type_Kind :: kind

record StructField =
  Name :: string
  Index :: "nat list"
  IsExported :: bool

text \<open>
  A \<^verbatim>\<open>float64\<close> as far as comparison goes: not-a-number, the two infinities and the
  finite values (both zeros are \<open>Fin 0\<close>).
\<close>

datatype gofloat = NaN | NegInf | Fin rat | PosInf

text \<open>
  \<open>VInt\<close> stands for the kinds \<^verbatim>\<open>Int .. Int64\<close> (read by \<^verbatim>\<open>Value.Int\<close> as an
  \<^verbatim>\<open>int64\<close>), \<open>VUint\<close> for \<^verbatim>\<open>Uint .. Uint64\<close> and \<^verbatim>\<open>Uintptr\<close>. A nil pointer is
  \<open>VPointer t None\<close>; a nil interface is \<open>VInterface t Invalid\<close>. A slice lists the
  cells of its elements, a map pairs each key with the cell of its value.
\<close>

datatype val =
    Invalid
  | VBool rtype bool
  | VInt rtype "64 word"
  | VUint rtype "64 word"
  | VFloat rtype gofloat
  | VComplex rtype gofloat gofloat
  | VString rtype string
  | VUnsafePointer rtype addr
  | VInterface rtype val
  | VPointer rtype "addr option"
  | VArray rtype "val list"
  | VSlice rtype "addr list"
  | VMap rtype "(val \<times> addr) list"
  | VStruct rtype "(StructField \<times> val) list"
  | VFunc rtype addr
  | VChan rtype addr

type_synonym heap = "addr \<rightharpoonup> val"

fun Kind :: "val \<Rightarrow> kind" where
  "Kind Invalid = KInvalid"
| "Kind (VBool t b) = KBool"
| "Kind (VInt t i) = KInt"
| "Kind (VUint t u) = KUint"
| "Kind (VFloat t f) = KFloat"
| "Kind (VComplex t re im) = KComplex"
| "Kind (VString t str) = KString"
| "Kind (VUnsafePointer t a) = KUnsafePointer"
| "Kind (VInterface t x) = KInterface"
| "Kind (VPointer t p) = KPointer"
| "Kind (VArray t xs) = KArray"
| "Kind (VSlice t cells) = KSlice"
| "Kind (VMap t kvs) = KMap"
| "Kind (VStruct t fs) = KStruct"
| "Kind (VFunc t a) = KFunc"
| "Kind (VChan t a) = KChan"

text \<open>\<^verbatim>\<open>Value.Type\<close> panics on the zero Value: \<open>None\<close>.\<close>

fun Type :: "val \<Rightarrow> rtype option" where
  "Type Invalid = None"
| "Type (VBool t b) = Some t"
| "Type (VInt t i) = Some t"
| "Type (VUint t u) = Some t"
| "Type (VFloat t f) = Some t"
| "Type (VComplex t re im) = Some t"
| "Type (VString t str) = Some t"
| "Type (VUnsafePointer t a) = Some t"
| "Type (VInterface t x) = Some t"
| "Type (VPointer t p) = Some t"
| "Type (VArray t xs) = Some t"
| "Type (VSlice t cells) = Some t"
| "Type (VMap t kvs) = Some t"
| "Type (VStruct t fs) = Some t"
| "Type (VFunc t a) = Some t"
| "Type (VChan t a) = Some t"


definition IsValid :: "val \<Rightarrow> bool" where
  "IsValid v = (v \<noteq> Invalid)"

text \<open>Reading a cell; Go has no dangling pointer, a cell the store lacks reads as absent.\<close>

definition load :: "heap \<Rightarrow> addr \<Rightarrow> val" where
  "load h a = (case h a of None \<Rightarrow> Invalid | Some v \<Rightarrow> v)"

text \<open>\<^verbatim>\<open>Value.Elem\<close> of an interface or a pointer; the zero Value when it is nil.\<close>

fun Elem :: "heap \<Rightarrow> val \<Rightarrow> val" where
  "Elem h (VInterface t x) = x"
| "Elem h (VPointer t None) = Invalid"
| "Elem h (VPointer t (Some a)) = load h a"
| "Elem h v = Invalid"

text \<open>The elements \<^verbatim>\<open>v.Index(0) .. v.Index(v.Len()-1)\<close> of an array or slice.\<close>

fun elems :: "heap \<Rightarrow> val \<Rightarrow> val list" where
  "elems h (VArray t xs) = xs"
| "elems h (VSlice t cells) = map (load h) cells"
| "elems h v = []"

definition MapKeys :: "val \<Rightarrow> val list" where
  "MapKeys v = (case v of VMap t kvs \<Rightarrow> map fst kvs | _ \<Rightarrow> [])"

definition MapIndex :: "heap \<Rightarrow> val \<Rightarrow> val \<Rightarrow> val" where
  "MapIndex h v key =
     (case v of
        VMap t kvs \<Rightarrow> (case map_of kvs key of None \<Rightarrow> Invalid | Some a \<Rightarrow> load h a)
      | _ \<Rightarrow> Invalid)"

section \<open>The standard library the code calls\<close>

text \<open>
  What \<^verbatim>\<open>fmt\<close> and \<^verbatim>\<open>reflect\<close> compute from a value is outside the repository and a
  parameter of the model: the text of \<^verbatim>\<open>%v\<close> for a scalar, of \<^verbatim>\<open>%q\<close> for a string,
  of \<^verbatim>\<open>fmt.Sprint\<close> (which does not return on a value that contains itself without a
  pointer: \<open>None\<close>), and \<^verbatim>\<open>Value.IsZero\<close>.
\<close>

record lib =
  Sprintf_v :: "val \<Rightarrow> string"
  Sprintf_q :: "string \<Rightarrow> string"
  fmt_Sprint :: "val \<Rightarrow> string option"
  IsZero :: "val \<Rightarrow> bool"

text \<open>\<^verbatim>\<open>strings.LastIndex(str, c)\<close> for a separator of one byte; \<open>-1\<close> when absent.\<close>

definition LastIndex :: "string \<Rightarrow> char \<Rightarrow> int" where
  "LastIndex str c =
     (if c \<in> set str
      then int (length str) - 1 - int (length (takeWhile (\<lambda>x. x \<noteq> c) (rev str)))
      else - 1)"

text \<open>Decimal text of a number, as \<^verbatim>\<open>%d\<close> prints it.\<close>

fun digits :: "nat \<Rightarrow> string" where
  "digits n =
     (if n < 10 then [''0123456789'' ! n]
      else digits (n div 10) @ [''0123456789'' ! (n mod 10)])"

declare digits.simps [simp del]

definition Itoa :: "int \<Rightarrow> string" where
  "Itoa i = (if i < 0 then CHR ''-'' # digits (nat (- i)) else digits (nat i))"

text \<open>\<^verbatim>\<open>cmp.Compare\<close> on an ordered type without not-a-number, and on floats.\<close>

definition Compare :: "'a::linorder \<Rightarrow> 'a \<Rightarrow> int" where
  "Compare x y = (if x < y then - 1 else if y < x then 1 else 0)"

fun float_less :: "gofloat \<Rightarrow> gofloat \<Rightarrow> bool" where
  "float_less NaN y = False"
| "float_less x NaN = False"
| "float_less PosInf y = False"
| "float_less x NegInf = False"
| "float_less NegInf y = True"
| "float_less x PosInf = True"
| "float_less (Fin a) (Fin b) = (a < b)"

definition CompareFloat :: "gofloat \<Rightarrow> gofloat \<Rightarrow> int" where
  "CompareFloat x y =
     (if x = NaN then (if y = NaN then 0 else - 1)
      else if y = NaN then 1
      else if float_less x y then - 1
      else if float_less y x then 1
      else 0)"

section \<open>The ordering rule\<close>

datatype panic = TypeOfInvalid | FieldIndex | SprintOverflow

definition CanInt :: "val \<Rightarrow> bool" where
  "CanInt v = (Kind v = KInt)"

definition CanUint :: "val \<Rightarrow> bool" where
  "CanUint v = (Kind v = KUint)"

definition CanFloat :: "val \<Rightarrow> bool" where
  "CanFloat v = (Kind v = KFloat)"

definition Int_of :: "val \<Rightarrow> int" where
  "Int_of v = (case v of VInt t i \<Rightarrow> sint i | _ \<Rightarrow> 0)"

definition Uint_of :: "val \<Rightarrow> nat" where
  "Uint_of v = (case v of VUint t u \<Rightarrow> unat u | _ \<Rightarrow> 0)"

definition Float_of :: "val \<Rightarrow> gofloat" where
  "Float_of v = (case v of VFloat t f \<Rightarrow> f | _ \<Rightarrow> NaN)"

text \<open>
  \<^verbatim>\<open>compareValues\<close>, lines 739-772. The validity checks come first; an interface is
  unwrapped after them and the result is not checked again, so \<^verbatim>\<open>Type()\<close> panics on
  the unwrapped nil interface.
\<close>

definition compareValues :: "lib \<Rightarrow> heap \<Rightarrow> val \<Rightarrow> val \<Rightarrow> panic + int" where
  "compareValues L h v1 v2 =
     (if \<not> IsValid v1 \<and> \<not> IsValid v2 then Inr 0
      else if \<not> IsValid v1 then Inr (- 1)
      else if \<not> IsValid v2 then Inr 1
      else
        let u1 = (if Kind v1 = KInterface then Elem h v1 else v1);
            u2 = (if Kind v2 = KInterface then Elem h v2 else v2)
        in case Type u1 of
             None \<Rightarrow> Inl TypeOfInvalid
           | Some t1 \<Rightarrow>
               (case Type u2 of
                  None \<Rightarrow> Inl TypeOfInvalid
                | Some t2 \<Rightarrow>
                    if t1 \<noteq> t2 then Inr (Compare (type_String t1) (type_String t2))
                    else if CanInt u1 then Inr (Compare (Int_of u1) (Int_of u2))
                    else if CanUint u1 then Inr (Compare (Uint_of u1) (Uint_of u2))
                    else if CanFloat u1 then Inr (CompareFloat (Float_of u1) (Float_of u2))
                    else
                      (case fmt_Sprint L u1 of
                         None \<Rightarrow> Inl SprintOverflow
                       | Some str1 \<Rightarrow>
                           (case fmt_Sprint L u2 of
                              None \<Rightarrow> Inl SprintOverflow
                            | Some str2 \<Rightarrow> Inr (Compare str1 str2)))))"

section \<open>The layout engine\<close>

datatype error = WriteError nat

text \<open>
  An \<^verbatim>\<open>io.Writer\<close>: the bytes it has taken, the number of calls made to it, and how it
  answers its \<open>i\<close>-th call: \<open>None\<close> takes the whole string, \<open>Some (e, k)\<close> takes the first
  \<open>k\<close> bytes and returns the error \<open>e\<close>.
\<close>

record sink =
  written :: string
  nwrites :: nat
  fails :: "nat \<Rightarrow> (error \<times> nat) option"

definition WriteString :: "sink \<Rightarrow> string \<Rightarrow> sink \<times> error option" where
  "WriteString snk str =
     (case fails snk (nwrites snk) of
        None \<Rightarrow> (snk\<lparr>written := written snk @ str, nwrites := Suc (nwrites snk)\<rparr>, None)
      | Some (e, k) \<Rightarrow>
          (snk\<lparr>written := written snk @ take k str, nwrites := Suc (nwrites snk)\<rparr>, Some e))"

record Formatter =
  ShowZero :: bool
  MaxWidth :: int
  Compact :: bool
  Indent :: string
  MaxDepth :: int
  MaxElements :: int
  OmitPackage :: bool
  ignoreFields :: "rtype \<Rightarrow> string list"

record state =
  w :: sink
  seen :: "val set"
  depth :: int
  col :: int
  err :: "error option"

text \<open>\<^verbatim>\<open>state.write\<close>, lines 724-735.\<close>

definition write_str :: "string \<Rightarrow> state \<Rightarrow> state" where
  "write_str str s =
     (if err s \<noteq> None then s
      else
        let (snk, e) = WriteString (w s) str;
            s1 = s\<lparr>w := snk, err := e\<rparr>;
            i = LastIndex str (CHR 0x0A)
        in if i \<ge> 0 then s1\<lparr>col := int (length str) - i - 1\<rparr>
           else s1\<lparr>col := col s1 + int (length str)\<rparr>)"

text \<open>\<^verbatim>\<open>state.checkWidth\<close>, lines 698-703.\<close>

definition checkWidth :: "Formatter \<Rightarrow> string \<Rightarrow> state \<Rightarrow> state" where
  "checkWidth F str s =
     (if MaxWidth F > 0 \<and> col s + int (length str) \<ge> MaxWidth F
      then write_str [CHR 0x0A] s else s)"

text \<open>The loop \<^verbatim>\<open>for range s.depth { s.write(s.Indent) }\<close>.\<close>

fun write_indent :: "Formatter \<Rightarrow> nat \<Rightarrow> state \<Rightarrow> state" where
  "write_indent F 0 s = s"
| "write_indent F (Suc n) s = write_indent F n (write_str (Indent F) s)"

text \<open>\<^verbatim>\<open>state.pr\<close>, lines 709-722.\<close>

definition pr :: "Formatter \<Rightarrow> string \<Rightarrow> state \<Rightarrow> state" where
  "pr F str s =
     (if err s \<noteq> None then s
      else
        let s1 = checkWidth F str s;
            s2 = (if \<not> Compact F \<and> col s1 = 0 then write_indent F (nat (depth s1)) s1 else s1)
        in write_str str s2)"

text \<open>\<^verbatim>\<open>state.after\<close>, lines 678-688.\<close>

definition after :: "Formatter \<Rightarrow> string \<Rightarrow> state \<Rightarrow> state" where
  "after F str s =
     (let s1 = checkWidth F [] (write_str str s)
      in if col s1 \<noteq> 0
         then (if Compact F then write_str '' '' s1 else write_str [CHR 0x0A] s1)
         else s1)"

text \<open>\<^verbatim>\<open>state.between\<close>, lines 690-696.\<close>

definition between :: "Formatter \<Rightarrow> string \<Rightarrow> state \<Rightarrow> state" where
  "between F str s =
     (let s1 = checkWidth F [] (write_str str s)
      in if col s1 \<noteq> 0 then write_str '' '' s1 else s1)"

section \<open>The cycle and depth guard, and the value dispatcher\<close>

text \<open>
  A traversal either returns the state, or panics (\<open>Inl\<close>). The recursion of
  \<^verbatim>\<open>print\<close> is bounded by fuel; \<open>None\<close> says that the fuel ran out.
\<close>

type_synonym res = "(panic + state) option"

definition ret :: "state \<Rightarrow> res" where
  "ret s = Some (Inr s)"

definition bind :: "res \<Rightarrow> (state \<Rightarrow> res) \<Rightarrow> res" where
  "bind r f = (case r of None \<Rightarrow> None | Some (Inl p) \<Rightarrow> Some (Inl p) | Some (Inr s) \<Rightarrow> f s)"

text \<open>\<^verbatim>\<open>state.deeper\<close>, lines 505-513; the deferred decrement runs on both returns.\<close>

definition deeper :: "Formatter \<Rightarrow> (state \<Rightarrow> res) \<Rightarrow> state \<Rightarrow> res" where
  "deeper F f s =
     (let s1 = s\<lparr>depth := depth s + 1\<rparr>
      in bind (if depth s1 > MaxDepth F then ret (pr F ''<maxdepth>'' s1) else f s1)
           (\<lambda>s2. ret (s2\<lparr>depth := depth s2 - 1\<rparr>)))"

text \<open>\<^verbatim>\<open>state.typeName\<close>, lines 667-676.\<close>

definition typeName :: "Formatter \<Rightarrow> rtype \<Rightarrow> string" where
  "typeName F t =
     (let n = type_String t
      in if \<not> OmitPackage F then n
         else (let i = LastIndex n (CHR ''.'') in if i > 0 then drop (nat (i + 1)) n else n))"

text \<open>
  \<^verbatim>\<open>slices.SortFunc(keys, compareValues)\<close>: the library's insertion sort (what it runs
  on up to twelve elements), on the reversed sorted prefix. A panic of the comparison
  ends the sort.
\<close>

fun insertionStep :: "(val \<Rightarrow> val \<Rightarrow> panic + int) \<Rightarrow> val \<Rightarrow> val list \<Rightarrow> panic + val list" where
  "insertionStep cmp x [] = Inr [x]"
| "insertionStep cmp x (y # ys) =
     (case cmp x y of
        Inl p \<Rightarrow> Inl p
      | Inr c \<Rightarrow>
          if c < 0
          then (case insertionStep cmp x ys of Inl p \<Rightarrow> Inl p | Inr zs \<Rightarrow> Inr (y # zs))
          else Inr (x # y # ys))"

fun insertionSort :: "(val \<Rightarrow> val \<Rightarrow> panic + int) \<Rightarrow> val list \<Rightarrow> val list \<Rightarrow> panic + val list" where
  "insertionSort cmp pre [] = Inr (rev pre)"
| "insertionSort cmp pre (x # xs) =
     (case insertionStep cmp x pre of
        Inl p \<Rightarrow> Inl p
      | Inr pre' \<Rightarrow> insertionSort cmp pre' xs)"

definition SortFunc :: "(val \<Rightarrow> val \<Rightarrow> panic + int) \<Rightarrow> val list \<Rightarrow> panic + val list" where
  "SortFunc cmp xs = insertionSort cmp [] xs"

text \<open>
  \<^verbatim>\<open>state.printSlice\<close>, lines 577-603. The loop runs over the elements from index
  \<open>i\<close> on; \<open>prt\<close> is \<^verbatim>\<open>s.print\<close>.
\<close>

fun printSlice_loop ::
  "Formatter \<Rightarrow> (val \<Rightarrow> state \<Rightarrow> res) \<Rightarrow> nat \<Rightarrow> nat \<Rightarrow> val list \<Rightarrow> state \<Rightarrow> res" where
  "printSlice_loop F prt len i [] s = ret s"
| "printSlice_loop F prt len i (x # xs) s =
     (if MaxElements F > 0 \<and> int i \<ge> MaxElements F
      then ret (if Compact F then pr F ''...'' s
                else (let s1 = s\<lparr>depth := depth s + 1\<rparr>;
                          s2 = pr F (''...'' @ [CHR 0x0A]) s1
                      in s2\<lparr>depth := depth s2 - 1\<rparr>))
      else bind (prt x s) (\<lambda>s1.
             printSlice_loop F prt len (Suc i) xs
               (if \<not> Compact F \<or> int i \<noteq> int len - 1 then after F '','' s1 else s1)))"

definition printSlice :: "Formatter \<Rightarrow> (val \<Rightarrow> state \<Rightarrow> res) \<Rightarrow> heap \<Rightarrow> val \<Rightarrow> state \<Rightarrow> res" where
  "printSlice F prt h v s =
     (let n = length (elems h v);
          s1 = (if Kind v = KArray then pr F (''['' @ Itoa (int n) @ '']{'') s
                else pr F ''[]{'' s);
          s2 = (if \<not> Compact F then pr F [CHR 0x0A] s1 else s1)
      in bind (printSlice_loop F prt n 0 (elems h v) s2) (\<lambda>s3. ret (pr F ''}'' s3)))"

text \<open>\<^verbatim>\<open>state.printMap\<close>, lines 605-627.\<close>

fun printMap_loop ::
  "Formatter \<Rightarrow> (val \<Rightarrow> state \<Rightarrow> res) \<Rightarrow> heap \<Rightarrow> val \<Rightarrow> nat \<Rightarrow> nat \<Rightarrow> val list \<Rightarrow> state \<Rightarrow> res"
  where
  "printMap_loop F prt h v len i [] s = ret s"
| "printMap_loop F prt h v len i (key # keys) s =
     (if MaxElements F > 0 \<and> int i \<ge> MaxElements F
      then ret (pr F ''...'' s)
      else bind (prt key s) (\<lambda>s1.
           bind (prt (MapIndex h v key) (between F '':'' s1)) (\<lambda>s2.
             printMap_loop F prt h v len (Suc i) keys
               (if \<not> Compact F \<or> int i \<noteq> int len - 1 then after F '','' s2 else s2))))"

definition printMap ::
  "Formatter \<Rightarrow> lib \<Rightarrow> (val \<Rightarrow> state \<Rightarrow> res) \<Rightarrow> heap \<Rightarrow> val \<Rightarrow> state \<Rightarrow> res" where
  "printMap F L prt h v s =
     (case SortFunc (compareValues L h) (MapKeys v) of
        Inl p \<Rightarrow> Some (Inl p)
      | Inr keys \<Rightarrow>
          (let s1 = pr F ''{'' s;
               s2 = (if \<not> Compact F then pr F [CHR 0x0A] s1 else s1)
           in bind (printMap_loop F prt h v (length keys) 0 keys s2)
                (\<lambda>s3. ret (pr F ''}'' s3))))"

text \<open>
  \<^verbatim>\<open>state.printStruct\<close>, lines 629-665. A field comes with its value
  \<^verbatim>\<open>v.Field(i)\<close>; \<open>first\<close> is the loop's variable of that name.
\<close>

fun printStruct_loop ::
  "Formatter \<Rightarrow> lib \<Rightarrow> (val \<Rightarrow> state \<Rightarrow> res) \<Rightarrow> string list \<Rightarrow> bool \<Rightarrow>
     (StructField \<times> val) list \<Rightarrow> state \<Rightarrow> res" where
  "printStruct_loop F L prt ignore first [] s = ret s"
| "printStruct_loop F L prt ignore first ((sf, x) # fs) s =
     (if Name sf \<in> set ignore then printStruct_loop F L prt ignore first fs s
      else if length (Index sf) \<noteq> 1 then Some (Inl FieldIndex)
      else if \<not> IsExported sf then printStruct_loop F L prt ignore first fs s
      else if \<not> ShowZero F \<and> IsZero L x then printStruct_loop F L prt ignore first fs s
      else
        (let s1 = (if \<not> first \<and> Compact F then pr F '', '' s else s)
         in bind (deeper F (\<lambda>s'. ret (pr F (Name sf) s')) s1) (\<lambda>s2.
            bind (prt x (between F '':'' s2)) (\<lambda>s3.
              printStruct_loop F L prt ignore False fs
                (if \<not> Compact F then pr F [CHR 0x0A] s3 else s3)))))"

definition printStruct ::
  "Formatter \<Rightarrow> lib \<Rightarrow> (val \<Rightarrow> state \<Rightarrow> res) \<Rightarrow> rtype \<Rightarrow> (StructField \<times> val) list \<Rightarrow>
     state \<Rightarrow> res" where
  "printStruct F L prt t fs s =
     (let s1 = pr F (typeName F t @ ''{'') s;
          s2 = (if \<not> Compact F then pr F [CHR 0x0A] s1 else s1)
      in bind (printStruct_loop F L prt (ignoreFields F t) True fs s2)
           (\<lambda>s3. ret (pr F ''}'' s3)))"

text \<open>
  The switch on \<^verbatim>\<open>v.Kind()\<close> of \<^verbatim>\<open>printSameDepth\<close>, lines 539-573; \<open>prt\<close> is
  \<^verbatim>\<open>s.print\<close> and \<open>psd\<close> is \<^verbatim>\<open>s.printSameDepth\<close>. The kinds of \<^verbatim>\<open>reflect\<close> are
  all listed in the switch, so its default branch has no value to run on.
\<close>

definition kind_switch ::
  "Formatter \<Rightarrow> lib \<Rightarrow> heap \<Rightarrow> (val \<Rightarrow> state \<Rightarrow> res) \<Rightarrow> (val \<Rightarrow> state \<Rightarrow> res) \<Rightarrow> val \<Rightarrow>
     state \<Rightarrow> res" where
  "kind_switch F L h prt psd v s =
     (case v of
        VString t str \<Rightarrow> ret (pr F (Sprintf_q L str) s)
      | VInterface t x \<Rightarrow> psd (Elem h v) s
      | VPointer t p \<Rightarrow> psd (Elem h v) (pr F ''&'' s)
      | VArray t xs \<Rightarrow> printSlice F prt h v s
      | VSlice t cells \<Rightarrow> printSlice F prt h v s
      | VMap t kvs \<Rightarrow> printMap F L prt h v s
      | VStruct t fs \<Rightarrow> printStruct F L prt t fs s
      | VFunc t a \<Rightarrow> ret (pr F (typeName F t @ ''('' @ typeName F t @ '')'') s)
      | VChan t a \<Rightarrow> ret (pr F (typeName F t @ ''('' @ typeName F t @ '')'') s)
      | _ \<Rightarrow> ret (pr F (Sprintf_v L v) s))"

text \<open>The kinds whose values \<^verbatim>\<open>printSameDepth\<close> enters in \<^verbatim>\<open>s.seen\<close>, line 529.\<close>

definition tracked :: "val \<Rightarrow> bool" where
  "tracked v = (Kind v = KPointer \<or> Kind v = KUnsafePointer)"

text \<open>
  \<^verbatim>\<open>state.print\<close>, lines 515-519, and \<^verbatim>\<open>state.printSameDepth\<close>, lines 521-574. The
  key of \<^verbatim>\<open>s.seen\<close> is \<^verbatim>\<open>v.Interface()\<close>, a pointer with its type: the value itself.
  The deferred \<^verbatim>\<open>delete\<close> runs when the switch returns.
\<close>

fun print :: "nat \<Rightarrow> Formatter \<Rightarrow> lib \<Rightarrow> heap \<Rightarrow> val \<Rightarrow> state \<Rightarrow> res"
  and printSameDepth :: "nat \<Rightarrow> Formatter \<Rightarrow> lib \<Rightarrow> heap \<Rightarrow> val \<Rightarrow> state \<Rightarrow> res" where
  "print 0 F L h v s = None"
| "print (Suc n) F L h v s = deeper F (printSameDepth n F L h v) s"
| "printSameDepth 0 F L h v s = None"
| "printSameDepth (Suc n) F L h v s =
     (if \<not> IsValid v then ret (pr F ''nil'' s)
      else if tracked v \<and> v \<in> seen s then ret (pr F ''<cycle>'' s)
      else bind
             (kind_switch F L h (print n F L h) (printSameDepth n F L h) v
                (if tracked v then s\<lparr>seen := insert v (seen s)\<rparr> else s))
             (\<lambda>s1. ret (if tracked v then s1\<lparr>seen := seen s1 - {v}\<rparr> else s1)))"

text \<open>
  \<^verbatim>\<open>Formatter.Fprint\<close>, lines 471-494, on the Value of \<^verbatim>\<open>reflect.ValueOf(x)\<close>; it
  returns the sink and the error.
\<close>

definition Fprint ::
  "nat \<Rightarrow> Formatter \<Rightarrow> lib \<Rightarrow> heap \<Rightarrow> sink \<Rightarrow> val \<Rightarrow> (panic + sink \<times> error option) option" where
  "Fprint n F L h snk x =
     (let F1 = (if Indent F = [] then F\<lparr>Indent := ''    ''\<rparr> else F);
          F2 = (if MaxDepth F1 \<le> 0 then F1\<lparr>MaxDepth := 100\<rparr> else F1);
          s = \<lparr>w = snk, seen = {}, depth = - 1, col = 0, err = None\<rparr>
      in case print n F2 L h x s of
           None \<Rightarrow> None
         | Some (Inl p) \<Rightarrow> Some (Inl p)
         | Some (Inr s') \<Rightarrow>
             if err s' \<noteq> None then Some (Inr (w s', err s'))
             else if col s' \<noteq> 0 \<and> \<not> Compact F2
             then Some (Inr (WriteString (w s') [CHR 0x0A]))
             else Some (Inr (w s', None)))"

text \<open>\<^verbatim>\<open>Formatter.Sprint\<close>, lines 459-463: the sink is a buffer, which takes every write.\<close>

definition Buffer :: sink where
  "Buffer = \<lparr>written = [], nwrites = 0, fails = (\<lambda>i. None)\<rparr>"

definition Sprint :: "nat \<Rightarrow> Formatter \<Rightarrow> lib \<Rightarrow> heap \<Rightarrow> val \<Rightarrow> (panic + string) option" where
  "Sprint n F L h x =
     (case Fprint n F L h Buffer x of
        None \<Rightarrow> None
      | Some (Inl p) \<Rightarrow> Some (Inl p)
      | Some (Inr (snk, e)) \<Rightarrow> Some (Inr (written snk)))"

section \<open>Predicates of the properties\<close>

text \<open>
  A traversal step \<open>f\<close> that returns leaves the visited set and the depth counter as it
  found them.
\<close>

definition frames :: "(state \<Rightarrow> res) \<Rightarrow> bool" where
  "frames f = (\<forall>s s'. f s = Some (Inr s') \<longrightarrow> seen s' = seen s \<and> depth s' = depth s)"

text \<open>Every outcome of \<open>f\<close> is the outcome of \<open>g\<close>: what more fuel keeps.\<close>

definition below :: "(state \<Rightarrow> res) \<Rightarrow> (state \<Rightarrow> res) \<Rightarrow> bool" where
  "below f g = (\<forall>s r. f s = Some r \<longrightarrow> g s = Some r)"

text \<open>A field that the loop of \<^verbatim>\<open>printStruct\<close> passes over.\<close>

definition skipped :: "Formatter \<Rightarrow> lib \<Rightarrow> string list \<Rightarrow> StructField \<Rightarrow> val \<Rightarrow> bool" where
  "skipped F L ignore sf x =
     (Name sf \<in> set ignore \<or>
      (length (Index sf) = 1 \<and> (\<not> IsExported sf \<or> (\<not> ShowZero F \<and> IsZero L x))))"

text \<open>
  What a traversal step does to the sink and the error, as a relation \<open>Q\<close> between the
  two before and after. A law is a relation that holds of no step at all, of two steps in
  a row, and of one \<^verbatim>\<open>write\<close>.
\<close>

definition sink_law :: "(sink \<times> error option \<Rightarrow> sink \<times> error option \<Rightarrow> bool) \<Rightarrow> bool" where
  "sink_law Q =
     ((\<forall>x. Q x x) \<and> (\<forall>x y z. Q x y \<longrightarrow> Q y z \<longrightarrow> Q x z) \<and>
      (\<forall>str s. Q (w s, err s) (w (write_str str s), err (write_str str s))))"

definition traces ::
  "(sink \<times> error option \<Rightarrow> sink \<times> error option \<Rightarrow> bool) \<Rightarrow> (state \<Rightarrow> res) \<Rightarrow> bool" where
  "traces Q f = (\<forall>s s'. f s = Some (Inr s') \<longrightarrow> Q (w s, err s) (w s', err s'))"

text \<open>
  The sink and the error after some steps, against those before: the sink keeps its
  behaviour and what it has taken; once the error is set nothing changes; and from no
  error, either every call made since was taken, or the last call made is the first that
  failed and the error is the one it returned.
\<close>

definition first_error :: "sink \<times> error option \<Rightarrow> sink \<times> error option \<Rightarrow> bool" where
  "first_error x y =
     (fails (fst y) = fails (fst x) \<and> prefix (written (fst x)) (written (fst y)) \<and>
      nwrites (fst x) \<le> nwrites (fst y) \<and>
      (case snd x of
         Some e \<Rightarrow> y = x
       | None \<Rightarrow>
           (case snd y of
              None \<Rightarrow> (\<forall>i. nwrites (fst x) \<le> i \<and> i < nwrites (fst y) \<longrightarrow> fails (fst x) i = None)
            | Some e \<Rightarrow>
                (\<exists>k m. nwrites (fst y) = Suc k \<and> nwrites (fst x) \<le> k \<and>
                   fails (fst x) k = Some (e, m) \<and>
                   (\<forall>i. nwrites (fst x) \<le> i \<and> i < k \<longrightarrow> fails (fst x) i = None)))))"

text \<open>
  Two outcomes of the same kind: both out of fuel, both the same panic, or both a return.
  A step is uniform when its kind of outcome depends on the visited set and the depth
  only, not on the sink, the column or the error.
\<close>

definition alike :: "res \<Rightarrow> res \<Rightarrow> bool" where
  "alike r r' =
     (case r of
        None \<Rightarrow> r' = None
      | Some (Inl p) \<Rightarrow> r' = Some (Inl p)
      | Some (Inr s) \<Rightarrow> (\<exists>t. r' = Some (Inr t)))"

definition uniform :: "(state \<Rightarrow> res) \<Rightarrow> bool" where
  "uniform f = (\<forall>s t. seen s = seen t \<and> depth s = depth t \<longrightarrow> alike (f s) (f t))"

text \<open>
  The spec's words for a pointer, section 4.4: the marker, then the referent through the
  guard of section 4.2 with the depth incremented for it, that is through \<^verbatim>\<open>print\<close>.
\<close>

definition pointer_case_spec ::
  "Formatter \<Rightarrow> heap \<Rightarrow> (val \<Rightarrow> state \<Rightarrow> res) \<Rightarrow> val \<Rightarrow> state \<Rightarrow> res" where
  "pointer_case_spec F h prt v s = prt (Elem h v) (pr F ''&'' s)"

section \<open>Concrete inputs\<close>

text \<open>A sink that takes every write, as \<^verbatim>\<open>bytes.Buffer\<close> does.\<close>

definition reliable :: "sink \<Rightarrow> bool" where
  "reliable snk = (\<forall>i. fails snk i = None)"

text \<open>
  The library on the predeclared types \<^verbatim>\<open>bool\<close>, \<^verbatim>\<open>int\<close>, \<^verbatim>\<open>uint\<close> and
  \<^verbatim>\<open>string\<close> (text that \<^verbatim>\<open>%q\<close> quotes without escapes); the examples below use it on
  these only.
\<close>

fun zero_val :: "val \<Rightarrow> bool" where
  "zero_val (VBool t b) = (\<not> b)"
| "zero_val (VInt t i) = (i = 0)"
| "zero_val (VUint t u) = (u = 0)"
| "zero_val (VString t str) = (str = [])"
| "zero_val (VPointer t p) = (p = None)"
| "zero_val (VInterface t x) = (x = Invalid)"
| "zero_val v = False"

definition gofmt :: lib where
  "gofmt =
     \<lparr>Sprintf_v = (\<lambda>v. case v of
                        VBool t b \<Rightarrow> if b then ''true'' else ''false''
                      | VInt t i \<Rightarrow> Itoa (sint i)
                      | VUint t u \<Rightarrow> Itoa (int (unat u))
                      | _ \<Rightarrow> []),
      Sprintf_q = (\<lambda>str. CHR 0x22 # str @ [CHR 0x22]),
      fmt_Sprint = (\<lambda>v. case v of VString t str \<Rightarrow> Some str | _ \<Rightarrow> Some []),
      IsZero = zero_val\<rparr>"

definition T_int :: rtype where
  "T_int = \<lparr>type_id = 1, type_String = ''int'', type_Kind = KInt\<rparr>"

definition T_string :: rtype where
  "T_string = \<lparr>type_id = 2, type_String = ''string'', type_Kind = KString\<rparr>"

definition T_any :: rtype where
  "T_any = \<lparr>type_id = 3, type_String = ''interface {}'', type_Kind = KInterface\<rparr>"

definition T_ints :: rtype where
  "T_ints = \<lparr>type_id = 4, type_String = ''[]int'', type_Kind = KSlice\<rparr>"

definition T_anys :: rtype where
  "T_anys = \<lparr>type_id = 5, type_String = ''[]interface {}'', type_Kind = KSlice\<rparr>"

definition T_panys :: rtype where
  "T_panys = \<lparr>type_id = 6, type_String = ''*[]interface {}'', type_Kind = KPointer\<rparr>"

definition T_map :: rtype where
  "T_map = \<lparr>type_id = 7, type_String = ''map[string]int'', type_Kind = KMap\<rparr>"

text \<open>The zero \<^verbatim>\<open>Formatter\<close>, what \<^verbatim>\<open>New()\<close> returns.\<close>

definition F0 :: Formatter where
  "F0 = \<lparr>ShowZero = False, MaxWidth = 0, Compact = False, Indent = [], MaxDepth = 0,
          MaxElements = 0, OmitPackage = False, ignoreFields = (\<lambda>t. [])\<rparr>"

text \<open>A state in the middle of a line: column 4 at depth 1, nothing written yet.\<close>

definition s_col4 :: state where
  "s_col4 = \<lparr>w = Buffer, seen = {}, depth = 1, col = 4, err = None\<rparr>"

text \<open>The map \<^verbatim>\<open>map[string]int{"abc": 1}\<close>.\<close>

definition h_abc :: heap where
  "h_abc = [1 \<mapsto> VInt T_int 1]"

definition m_abc :: val where
  "m_abc = VMap T_map [(VString T_string ''abc'', 1)]"

text \<open>The slice \<^verbatim>\<open>[]int{2, 3, 4}\<close>.\<close>

definition h_234 :: heap where
  "h_234 = [1 \<mapsto> VInt T_int 2, 2 \<mapsto> VInt T_int 3, 3 \<mapsto> VInt T_int 4]"

definition v_234 :: val where
  "v_234 = VSlice T_ints [1, 2, 3]"

text \<open>A sink whose third write fails, taking nothing of it.\<close>

definition snk_fail :: sink where
  "snk_fail = \<lparr>written = [], nwrites = 0,
                fails = (\<lambda>i. if i = 2 then Some (WriteError 7, 0) else None)\<rparr>"

definition T_pint :: rtype where
  "T_pint = \<lparr>type_id = 8, type_String = ''*int'', type_Kind = KPointer\<rparr>"

definition T_pints :: rtype where
  "T_pints = \<lparr>type_id = 9, type_String = ''[]*int'', type_Kind = KSlice\<rparr>"

text \<open>The slice \<^verbatim>\<open>[]*int{p, p}\<close> with \<^verbatim>\<open>p\<close> pointing to 5: cell 1 holds 5, cells 2 and 3 hold \<^verbatim>\<open>p\<close>.\<close>

definition h_shared :: heap where
  "h_shared = [1 \<mapsto> VInt T_int 5, 2 \<mapsto> VPointer T_pint (Some 1), 3 \<mapsto> VPointer T_pint (Some 1)]"

definition v_shared :: val where
  "v_shared = VSlice T_pints [2, 3]"

text \<open>A state at depth 1 on a fresh buffer, in the middle of a line.\<close>

definition s_depth1 :: state where
  "s_depth1 = \<lparr>w = Buffer, seen = {}, depth = 1, col = 3, err = None\<rparr>"

definition F_d1 :: Formatter where
  "F_d1 = F0\<lparr>Compact := True, MaxDepth := 1\<rparr>"

definition F_c5 :: Formatter where
  "F_c5 = F0\<lparr>Compact := True, MaxDepth := 5\<rparr>"

definition F_m2 :: Formatter where
  "F_m2 = F0\<lparr>Compact := True, MaxElements := 2, MaxDepth := 5\<rparr>"

text \<open>The map \<^verbatim>\<open>map[string]int{"c": 3, "b": 2, "a": 1}\<close>, its keys as the runtime hands them out.\<close>

definition h_cba :: heap where
  "h_cba = [1 \<mapsto> VInt T_int 3, 2 \<mapsto> VInt T_int 2, 3 \<mapsto> VInt T_int 1]"

definition m_cba :: val where
  "m_cba = VMap T_map [(VString T_string ''c'', 1), (VString T_string ''b'', 2),
                       (VString T_string ''a'', 3)]"

section \<open>Properties of the ordering rule\<close>













text \<open>
  C10. \<^verbatim>\<open>compareValues\<close> is not total: when one argument is an interface that wraps
  nil and the other is valid, both validity checks pass, the unwrapping yields the zero
  Value, and \<^verbatim>\<open>Type()\<close> panics on it, whichever side the nil interface is on.
\<close>

theorem compareValues_nil_interface_panics:
  "IsValid v \<Longrightarrow>
     compareValues L h (VInterface t Invalid) v = Inl TypeOfInvalid \<and>
     compareValues L h v (VInterface t Invalid) = Inl TypeOfInvalid"
  by (auto simp: compareValues_def IsValid_def Let_def split: option.splits)

theorem compareValues_nil_interface_panics_witness:
  "IsValid (VInt T_int 1) \<and>
   compareValues gofmt Map.empty (VInterface T_any Invalid) (VInt T_int 1) = Inl TypeOfInvalid \<and>
   compareValues gofmt Map.empty (VInt T_int 1) (VInterface T_any Invalid) = Inl TypeOfInvalid"
proof -
  have v: "IsValid (VInt T_int 1)" by (simp add: IsValid_def)
  show ?thesis
    using v compareValues_nil_interface_panics [OF v, of gofmt Map.empty T_any] by simp
qed

section \<open>Properties of the layout engine\<close>

lemma LastIndex_absent: "c \<notin> set str \<Longrightarrow> LastIndex str c = - 1"
  by (simp add: LastIndex_def)

lemma takeWhile_shorter: "x \<in> set xs \<Longrightarrow> \<not> P x \<Longrightarrow> length (takeWhile P xs) < length xs"
  by (induction xs) auto

lemma LastIndex_nonneg:
  assumes "c \<in> set str"
  shows "0 \<le> LastIndex str c \<and> LastIndex str c < int (length str)"
proof -
  have "length (takeWhile (\<lambda>x. x \<noteq> c) (rev str)) < length (rev str)"
    using assms by (intro takeWhile_shorter [of c]) simp_all
  then show ?thesis using assms by (simp add: LastIndex_def)
qed

lemma LastIndex_newline [simp]: "LastIndex [CHR 0x0A] (CHR 0x0A) = 0"
  by (simp add: LastIndex_def)

lemma write_str_reliable:
  "err s = None \<Longrightarrow> reliable (w s) \<Longrightarrow>
   write_str str s =
     s\<lparr>w := (w s)\<lparr>written := written (w s) @ str, nwrites := Suc (nwrites (w s))\<rparr>,
       err := None,
       col := (if CHR 0x0A \<in> set str then int (length str) - LastIndex str (CHR 0x0A) - 1
               else col s + int (length str))\<rparr>"
  using LastIndex_nonneg [of "CHR 0x0A" str]
  by (auto simp: write_str_def WriteString_def reliable_def Let_def LastIndex_absent)

lemma write_str_reliable_facts:
  assumes "err s = None" "reliable (w s)"
  shows "err (write_str str s) = None" "reliable (w (write_str str s))"
    "written (w (write_str str s)) = written (w s) @ str"
    "depth (write_str str s) = depth s" "seen (write_str str s) = seen s"
  using assms by (simp_all add: write_str_reliable reliable_def)

lemma write_str_col_newline:
  "err s = None \<Longrightarrow> col (write_str [CHR 0x0A] s) = 0"
  by (simp add: write_str_def Let_def split: prod.splits)

lemma write_str_col_plain:
  "err s = None \<Longrightarrow> CHR 0x0A \<notin> set str \<Longrightarrow> col (write_str str s) = col s + int (length str)"
  by (simp add: write_str_def Let_def LastIndex_absent split: prod.splits)

lemma write_indent_reliable:
  "err s = None \<Longrightarrow> reliable (w s) \<Longrightarrow>
   err (write_indent F n s) = None \<and> reliable (w (write_indent F n s)) \<and>
   written (w (write_indent F n s)) = written (w s) @ concat (replicate n (Indent F)) \<and>
   depth (write_indent F n s) = depth s \<and> seen (write_indent F n s) = seen s"
proof (induction n arbitrary: s)
  case 0
  then show ?case by simp
next
  case (Suc n)
  have "concat (replicate n (Indent F)) @ Indent F = Indent F @ concat (replicate n (Indent F))"
    by (induction n) auto
  then show ?case
    using Suc.IH [of "write_str (Indent F) s"] Suc.prems
    by (simp add: write_str_reliable_facts)
qed

text \<open>
  C7. A fragment is emitted by \<^verbatim>\<open>pr\<close>. With a width limit set and the column plus the
  fragment's length at or past it, the sink receives a newline before the fragment (and
  in expanded mode the indentation of the new line), whatever the mode; with no limit
  the sink receives the fragment with no newline before it. The sink takes its writes.
\<close>

theorem pr_forced_break:
  assumes "err s = None" "reliable (w s)"
  shows "(0 < MaxWidth F \<and> MaxWidth F \<le> col s + int (length str) \<longrightarrow>
            written (w (pr F str s)) =
              written (w s) @ [CHR 0x0A] @
                concat (replicate (if Compact F then 0 else nat (depth s)) (Indent F)) @ str) \<and>
         (MaxWidth F = 0 \<longrightarrow>
            written (w (pr F str s)) =
              written (w s) @
                (if \<not> Compact F \<and> col s = 0 then concat (replicate (nat (depth s)) (Indent F))
                 else []) @ str)"
proof (intro conjI impI)
  assume mw: "0 < MaxWidth F \<and> MaxWidth F \<le> col s + int (length str)"
  let ?s1 = "write_str [CHR 0x0A] s"
  have c: "checkWidth F str s = ?s1" using mw by (simp add: checkWidth_def)
  have f1: "err ?s1 = None" "reliable (w ?s1)" "written (w ?s1) = written (w s) @ [CHR 0x0A]"
    "depth ?s1 = depth s" "col ?s1 = 0"
    using assms by (simp_all add: write_str_reliable_facts write_str_col_newline)
  show "written (w (pr F str s)) =
          written (w s) @ [CHR 0x0A] @
            concat (replicate (if Compact F then 0 else nat (depth s)) (Indent F)) @ str"
    using assms f1 write_indent_reliable [OF f1(1) f1(2), of F "nat (depth s)"]
    by (simp add: pr_def c Let_def write_str_reliable_facts)
next
  assume mw: "MaxWidth F = 0"
  have c: "checkWidth F str s = s" using mw by (simp add: checkWidth_def)
  show "written (w (pr F str s)) =
          written (w s) @
            (if \<not> Compact F \<and> col s = 0 then concat (replicate (nat (depth s)) (Indent F))
             else []) @ str"
    using assms write_indent_reliable [OF assms, of F "nat (depth s)"]
    by (simp add: pr_def c Let_def write_str_reliable_facts)
qed

theorem pr_forced_break_witness:
  "err s_col4 = None \<and> reliable (w s_col4) \<and>
   written (w (pr (F0\<lparr>MaxWidth := 6, Indent := ''  ''\<rparr>) ''ab'' s_col4)) = ''\<newline>  ab'' \<and>
   written (w (pr (F0\<lparr>MaxWidth := 6, Compact := True\<rparr>) ''ab'' s_col4)) = ''\<newline>ab'' \<and>
   written (w (pr F0 ''ab'' s_col4)) = ''ab''"
proof -
  have a: "err s_col4 = None" "reliable (w s_col4)"
    by (simp_all add: s_col4_def reliable_def Buffer_def)
  show ?thesis
    using a pr_forced_break [OF a, of "F0\<lparr>MaxWidth := 6, Indent := ''  ''\<rparr>" "''ab''"]
      pr_forced_break [OF a, of "F0\<lparr>MaxWidth := 6, Compact := True\<rparr>" "''ab''"]
      pr_forced_break [OF a, of F0 "''ab''"]
    by (simp add: F0_def s_col4_def Buffer_def eval_nat_numeral)
qed

text \<open>
  C6, as the code has it. After the separator \<^verbatim>\<open>:\<close> of a map entry or a struct field,
  \<^verbatim>\<open>between\<close> checks the width: with no limit, or with the column still under it, the
  sink receives the token and one space, in either mode; with the column at or past the
  limit it receives the token and a newline, and no space. The sink takes its writes.
\<close>

theorem between_separator:
  assumes "err s = None" "reliable (w s)" "0 \<le> col s"
  shows "written (w (between F '':'' s)) =
           written (w s) @ '':'' @
             (if 0 < MaxWidth F \<and> MaxWidth F \<le> col s + 1 then [CHR 0x0A] else '' '')"
proof -
  let ?s1 = "write_str '':'' s"
  have f1: "err ?s1 = None" "reliable (w ?s1)" "written (w ?s1) = written (w s) @ '':''"
    "col ?s1 = col s + 1"
    using assms by (simp_all add: write_str_reliable_facts write_str_col_plain)
  show ?thesis
  proof (cases "0 < MaxWidth F \<and> MaxWidth F \<le> col s + 1")
    case True
    then have c: "checkWidth F [] ?s1 = write_str [CHR 0x0A] ?s1"
      using f1 by (simp add: checkWidth_def)
    show ?thesis using True f1
      by (simp add: between_def c Let_def write_str_col_newline write_str_reliable_facts)
  next
    case False
    then have c: "checkWidth F [] ?s1 = ?s1"
      using f1 by (auto simp add: checkWidth_def)
    show ?thesis using False f1 assms
      by (simp add: between_def c Let_def write_str_reliable_facts)
  qed
qed

theorem between_separator_witness:
  "err s_col4 = None \<and> reliable (w s_col4) \<and> 0 \<le> col s_col4 \<and>
   written (w (between F0 '':'' s_col4)) = '': '' \<and>
   written (w (between (F0\<lparr>Compact := True\<rparr>) '':'' s_col4)) = '': '' \<and>
   written (w (between (F0\<lparr>MaxWidth := 5\<rparr>) '':'' s_col4)) = '':\<newline>''"
proof -
  have a: "err s_col4 = None" "reliable (w s_col4)" "0 \<le> col s_col4"
    by (simp_all add: s_col4_def reliable_def Buffer_def)
  show ?thesis
    using a between_separator [OF a, of F0]
      between_separator [OF a, of "F0\<lparr>Compact := True\<rparr>"]
      between_separator [OF a, of "F0\<lparr>MaxWidth := 5\<rparr>"]
    by (simp add: F0_def s_col4_def Buffer_def)
qed

text \<open>
  The claim as the spec words it fails: formatting \<^verbatim>\<open>map[string]int{"abc": 1}\<close> in
  compact mode with \<^verbatim>\<open>MaxWidth\<close> 5 puts a newline, and no space, after the separator.
\<close>

theorem separator_space_counterexample:
  "Sprint 4 (F0\<lparr>Compact := True, MaxWidth := 5\<rparr>) gofmt h_abc m_abc =
     Some (Inr (''{\<newline>'' @ [CHR 0x22] @ ''abc'' @ [CHR 0x22] @ '':\<newline>1}''))"
  by code_simp

section \<open>The steps of the loops\<close>

lemma printSlice_loop_stop:
  "MaxElements F > 0 \<and> int i \<ge> MaxElements F \<Longrightarrow>
   printSlice_loop F prt len i (x # xs) s =
     ret (if Compact F then pr F ''...'' s
          else (let s1 = s\<lparr>depth := depth s + 1\<rparr>;
                    s2 = pr F (''...'' @ [CHR 0x0A]) s1
                in s2\<lparr>depth := depth s2 - 1\<rparr>))"
  by simp

lemma printSlice_loop_step:
  "\<not> (MaxElements F > 0 \<and> int i \<ge> MaxElements F) \<Longrightarrow>
   printSlice_loop F prt len i (x # xs) s =
     bind (prt x s) (\<lambda>s1.
       printSlice_loop F prt len (Suc i) xs
         (if \<not> Compact F \<or> int i \<noteq> int len - 1 then after F '','' s1 else s1))"
  by auto

lemma printMap_loop_stop:
  "MaxElements F > 0 \<and> int i \<ge> MaxElements F \<Longrightarrow>
   printMap_loop F prt h v len i (key # keys) s = ret (pr F ''...'' s)"
  by simp

lemma printMap_loop_step:
  "\<not> (MaxElements F > 0 \<and> int i \<ge> MaxElements F) \<Longrightarrow>
   printMap_loop F prt h v len i (key # keys) s =
     bind (prt key s) (\<lambda>s1.
     bind (prt (MapIndex h v key) (between F '':'' s1)) (\<lambda>s2.
       printMap_loop F prt h v len (Suc i) keys
         (if \<not> Compact F \<or> int i \<noteq> int len - 1 then after F '','' s2 else s2)))"
  by auto

lemma printStruct_loop_skip:
  "skipped F L ignore sf x \<Longrightarrow>
   printStruct_loop F L prt ignore first ((sf, x) # fs) s = printStruct_loop F L prt ignore first fs s"
  by (auto simp: skipped_def)

lemma printStruct_loop_bad:
  "\<not> skipped F L ignore sf x \<Longrightarrow> length (Index sf) \<noteq> 1 \<Longrightarrow>
   printStruct_loop F L prt ignore first ((sf, x) # fs) s = Some (Inl FieldIndex)"
  by (auto simp: skipped_def)

lemma printStruct_loop_field:
  "\<not> skipped F L ignore sf x \<Longrightarrow> length (Index sf) = 1 \<Longrightarrow>
   printStruct_loop F L prt ignore first ((sf, x) # fs) s =
     bind (deeper F (\<lambda>s'. ret (pr F (Name sf) s'))
            (if \<not> first \<and> Compact F then pr F '', '' s else s)) (\<lambda>s2.
     bind (prt x (between F '':'' s2)) (\<lambda>s3.
       printStruct_loop F L prt ignore False fs
         (if \<not> Compact F then pr F [CHR 0x0A] s3 else s3)))"
  by (auto simp: skipped_def Let_def)

lemma printSameDepth_enter:
  "IsValid v \<Longrightarrow> \<not> (tracked v \<and> v \<in> seen s) \<Longrightarrow>
   printSameDepth (Suc n) F L h v s =
     bind (kind_switch F L h (print n F L h) (printSameDepth n F L h) v
            (if tracked v then s\<lparr>seen := insert v (seen s)\<rparr> else s))
       (\<lambda>s1. ret (if tracked v then s1\<lparr>seen := seen s1 - {v}\<rparr> else s1))"
  by auto

lemma printSameDepth_nil:
  "\<not> IsValid v \<Longrightarrow> printSameDepth (Suc n) F L h v s = ret (pr F ''nil'' s)"
  by simp

lemma printSameDepth_cycle:
  "IsValid v \<Longrightarrow> tracked v \<Longrightarrow> v \<in> seen s \<Longrightarrow>
   printSameDepth (Suc n) F L h v s = ret (pr F ''<cycle>'' s)"
  by simp

lemma print_Suc: "print (Suc n) F L h v = deeper F (printSameDepth n F L h v)"
  by (rule ext) simp

declare printSlice_loop.simps(2) [simp del] printMap_loop.simps(2) [simp del]
  printStruct_loop.simps(2) [simp del] print.simps(2) [simp del] printSameDepth.simps(2) [simp del]

section \<open>The visited set and the depth counter are restored\<close>

lemma write_str_frame [simp]:
  "seen (write_str str s) = seen s" "depth (write_str str s) = depth s"
  by (simp_all add: write_str_def Let_def split: prod.splits)

lemma checkWidth_frame [simp]:
  "seen (checkWidth F str s) = seen s" "depth (checkWidth F str s) = depth s"
  by (simp_all add: checkWidth_def)

lemma write_indent_frame [simp]:
  "seen (write_indent F n s) = seen s" "depth (write_indent F n s) = depth s"
  by (induction n arbitrary: s) simp_all

lemma pr_frame [simp]:
  "seen (pr F str s) = seen s" "depth (pr F str s) = depth s"
  by (simp_all add: pr_def Let_def)

lemma after_frame [simp]:
  "seen (after F str s) = seen s" "depth (after F str s) = depth s"
  by (simp_all add: after_def Let_def)

lemma between_frame [simp]:
  "seen (between F str s) = seen s" "depth (between F str s) = depth s"
  by (simp_all add: between_def Let_def)

lemma framesI: "(\<And>s s'. f s = Some (Inr s') \<Longrightarrow> seen s' = seen s \<and> depth s' = depth s) \<Longrightarrow> frames f"
  by (simp add: frames_def)

lemma framesD: "frames f \<Longrightarrow> f s = Some (Inr s') \<Longrightarrow> seen s' = seen s \<and> depth s' = depth s"
  by (simp add: frames_def)

lemma bind_Inr:
  "bind r f = Some (Inr s') \<longleftrightarrow> (\<exists>s1. r = Some (Inr s1) \<and> f s1 = Some (Inr s'))"
  by (auto simp: bind_def split: option.splits sum.splits)

lemma ret_Inr [simp]: "ret s = Some (Inr s') \<longleftrightarrow> s = s'"
  by (simp add: ret_def)

lemma frames_deeper:
  assumes "frames f"
  shows "frames (deeper F f)"
proof (rule framesI)
  fix s s'
  assume r: "deeper F f s = Some (Inr s')"
  define s1 where "s1 = s\<lparr>depth := depth s + 1\<rparr>"
  obtain s2 where s2: "(if depth s1 > MaxDepth F then ret (pr F ''<maxdepth>'' s1) else f s1)
      = Some (Inr s2)" and s': "s' = s2\<lparr>depth := depth s2 - 1\<rparr>"
    using r unfolding deeper_def s1_def Let_def bind_Inr by auto
  have "seen s2 = seen s1 \<and> depth s2 = depth s1"
  proof (cases "depth s1 > MaxDepth F")
    case True
    then show ?thesis using s2 by auto
  next
    case False
    then show ?thesis using s2 framesD [OF assms] by auto
  qed
  then show "seen s' = seen s \<and> depth s' = depth s"
    by (simp add: s' s1_def)
qed

lemma frames_printSlice_loop:
  "(\<And>x. frames (prt x)) \<Longrightarrow> frames (printSlice_loop F prt len i xs)"
proof (induction xs arbitrary: i)
  case Nil
  then show ?case by (simp add: frames_def)
next
  case (Cons x xs)
  show ?case
  proof (rule framesI)
    fix s s'
    assume r: "printSlice_loop F prt len i (x # xs) s = Some (Inr s')"
    show "seen s' = seen s \<and> depth s' = depth s"
    proof (cases "MaxElements F > 0 \<and> int i \<ge> MaxElements F")
      case True
      then show ?thesis
        using r by (cases "Compact F") (auto simp: printSlice_loop_stop Let_def)
    next
      case False
      then obtain s1 where s1: "prt x s = Some (Inr s1)"
        and r2: "printSlice_loop F prt len (Suc i) xs
               (if \<not> Compact F \<or> int i \<noteq> int len - 1 then after F '','' s1 else s1) = Some (Inr s')"
        using r by (auto simp: printSlice_loop_step bind_Inr)
      from framesD [OF Cons.prems s1] framesD [OF Cons.IH [OF Cons.prems] r2]
      show ?thesis by (auto split: if_splits)
    qed
  qed
qed

lemma frames_printSlice:
  assumes "\<And>x. frames (prt x)"
  shows "frames (printSlice F prt h v)"
proof (rule framesI)
  fix s s'
  assume r: "printSlice F prt h v s = Some (Inr s')"
  define s2 where "s2 =
    (let s1 = (if Kind v = KArray then pr F (''['' @ Itoa (int (length (elems h v))) @ '']{'') s
               else pr F ''[]{'' s)
     in if \<not> Compact F then pr F [CHR 0x0A] s1 else s1)"
  have k: "seen s2 = seen s" "depth s2 = depth s" by (simp_all add: s2_def Let_def)
  obtain s3 where s3: "printSlice_loop F prt (length (elems h v)) 0 (elems h v) s2 = Some (Inr s3)"
    and s': "s' = pr F ''}'' s3"
    using r by (auto simp: printSlice_def s2_def Let_def bind_Inr)
  show "seen s' = seen s \<and> depth s' = depth s"
    using framesD [OF frames_printSlice_loop [OF assms] s3] k s' by simp
qed

lemma frames_printMap_loop:
  "(\<And>x. frames (prt x)) \<Longrightarrow> frames (printMap_loop F prt h v len i keys)"
proof (induction keys arbitrary: i)
  case Nil
  then show ?case by (simp add: frames_def)
next
  case (Cons key keys)
  show ?case
  proof (rule framesI)
    fix s s'
    assume r: "printMap_loop F prt h v len i (key # keys) s = Some (Inr s')"
    show "seen s' = seen s \<and> depth s' = depth s"
    proof (cases "MaxElements F > 0 \<and> int i \<ge> MaxElements F")
      case True
      then show ?thesis using r by (auto simp: printMap_loop_stop)
    next
      case False
      then obtain s1 s2 where s1: "prt key s = Some (Inr s1)"
        and s2: "prt (MapIndex h v key) (between F '':'' s1) = Some (Inr s2)"
        and r2: "printMap_loop F prt h v len (Suc i) keys
               (if \<not> Compact F \<or> int i \<noteq> int len - 1 then after F '','' s2 else s2) = Some (Inr s')"
        using r by (auto simp: printMap_loop_step bind_Inr)
      from framesD [OF Cons.prems s1] framesD [OF Cons.prems s2]
        framesD [OF Cons.IH [OF Cons.prems] r2]
      show ?thesis by (auto split: if_splits)
    qed
  qed
qed

lemma frames_printMap:
  assumes "\<And>x. frames (prt x)"
  shows "frames (printMap F L prt h v)"
proof (rule framesI)
  fix s s'
  assume r: "printMap F L prt h v s = Some (Inr s')"
  define s2 where "s2 = (let s1 = pr F ''{'' s in if \<not> Compact F then pr F [CHR 0x0A] s1 else s1)"
  have k: "seen s2 = seen s" "depth s2 = depth s" by (simp_all add: s2_def Let_def)
  obtain keys where keys: "SortFunc (compareValues L h) (MapKeys v) = Inr keys"
    using r unfolding printMap_def by (cases "SortFunc (compareValues L h) (MapKeys v)") auto
  obtain s3 where s3: "printMap_loop F prt h v (length keys) 0 keys s2 = Some (Inr s3)"
    and s': "s' = pr F ''}'' s3"
    using r by (auto simp: printMap_def s2_def Let_def keys bind_Inr)
  show "seen s' = seen s \<and> depth s' = depth s"
    using framesD [OF frames_printMap_loop [OF assms] s3] k s' by simp
qed

lemma frames_printStruct_loop:
  "(\<And>x. frames (prt x)) \<Longrightarrow> frames (printStruct_loop F L prt ignore first fs)"
proof (induction fs arbitrary: first)
  case Nil
  then show ?case by (simp add: frames_def)
next
  case (Cons f fs)
  obtain sf x where f: "f = (sf, x)" by (cases f)
  have name: "frames (deeper F (\<lambda>s'. ret (pr F (Name sf) s')))"
    by (rule frames_deeper) (simp add: frames_def)
  show ?case
  proof (rule framesI)
    fix s s'
    assume r: "printStruct_loop F L prt ignore first (f # fs) s = Some (Inr s')"
    consider (skip) "printStruct_loop F L prt ignore first fs s = Some (Inr s')"
      | (field) s2 s3 where
          "deeper F (\<lambda>s'. ret (pr F (Name sf) s')) (if \<not> first \<and> Compact F then pr F '', '' s else s)
             = Some (Inr s2)"
          "prt x (between F '':'' s2) = Some (Inr s3)"
          "printStruct_loop F L prt ignore False fs (if \<not> Compact F then pr F [CHR 0x0A] s3 else s3)
             = Some (Inr s')"
    proof (cases "skipped F L ignore sf x")
      case True
      then show ?thesis using r that(1) unfolding f by (simp add: printStruct_loop_skip)
    next
      case False
      then have one: "length (Index sf) = 1"
        using r unfolding f by (cases "length (Index sf) = 1") (simp_all add: printStruct_loop_bad)
      show ?thesis
        using r that(2) unfolding f printStruct_loop_field [OF False one] by (auto simp: bind_Inr)
    qed
    then show "seen s' = seen s \<and> depth s' = depth s"
    proof cases
      case skip
      then show ?thesis using framesD [OF Cons.IH [OF Cons.prems]] by blast
    next
      case field
      from framesD [OF name field(1)] framesD [OF Cons.prems field(2)]
        framesD [OF Cons.IH [OF Cons.prems] field(3)]
      show ?thesis by (auto split: if_splits)
    qed
  qed
qed

lemma frames_printStruct:
  assumes "\<And>x. frames (prt x)"
  shows "frames (printStruct F L prt t fs)"
proof (rule framesI)
  fix s s'
  assume r: "printStruct F L prt t fs s = Some (Inr s')"
  define s2 where "s2 =
    (let s1 = pr F (typeName F t @ ''{'') s in if \<not> Compact F then pr F [CHR 0x0A] s1 else s1)"
  have k: "seen s2 = seen s" "depth s2 = depth s" by (simp_all add: s2_def Let_def)
  obtain s3 where s3: "printStruct_loop F L prt (ignoreFields F t) True fs s2 = Some (Inr s3)"
    and s': "s' = pr F ''}'' s3"
    using r by (auto simp: printStruct_def s2_def Let_def bind_Inr)
  show "seen s' = seen s \<and> depth s' = depth s"
    using framesD [OF frames_printStruct_loop [OF assms] s3] k s' by simp
qed

lemma frames_kind_switch:
  assumes "\<And>x. frames (prt x)" "\<And>x. frames (psd x)"
  shows "frames (kind_switch F L h prt psd v)"
proof (rule framesI)
  fix s s'
  assume r: "kind_switch F L h prt psd v s = Some (Inr s')"
  note sl = framesD [OF frames_printSlice [OF assms(1)]]
  note mp = framesD [OF frames_printMap [OF assms(1)]]
  note st = framesD [OF frames_printStruct [OF assms(1)]]
  note ps = framesD [OF assms(2)]
  show "seen s' = seen s \<and> depth s' = depth s"
  proof (cases v)
    case (VInterface t x)
    then show ?thesis using r by (auto simp: kind_switch_def dest: ps)
  next
    case (VPointer t p)
    then show ?thesis using r by (auto simp: kind_switch_def dest: ps)
  next
    case (VArray t xs)
    then show ?thesis using r by (auto simp: kind_switch_def dest: sl)
  next
    case (VSlice t cells)
    then show ?thesis using r by (auto simp: kind_switch_def dest: sl)
  next
    case (VMap t kvs)
    then show ?thesis using r by (auto simp: kind_switch_def dest: mp)
  next
    case (VStruct t fs)
    then show ?thesis using r by (auto simp: kind_switch_def dest: st)
  qed (use r in \<open>auto simp: kind_switch_def\<close>)
qed

lemma frames_print_both:
  "(\<forall>v. frames (print n F L h v)) \<and> (\<forall>v. frames (printSameDepth n F L h v))"
proof (induction n)
  case 0
  then show ?case by (simp add: frames_def)
next
  case (Suc n)
  then have p: "\<And>x. frames (print n F L h x)" and q: "\<And>x. frames (printSameDepth n F L h x)"
    by simp_all
  note sw = framesD [OF frames_kind_switch [of "print n F L h" "printSameDepth n F L h", OF p q]]
  have "frames (printSameDepth (Suc n) F L h v)" for v
  proof (rule framesI)
    fix s s'
    assume r: "printSameDepth (Suc n) F L h v s = Some (Inr s')"
    show "seen s' = seen s \<and> depth s' = depth s"
    proof (cases "\<not> IsValid v \<or> (tracked v \<and> v \<in> seen s)")
      case True
      then show ?thesis
        using r by (cases "IsValid v") (auto simp: printSameDepth_nil printSameDepth_cycle)
    next
      case False
      define s0 where "s0 = (if tracked v then s\<lparr>seen := insert v (seen s)\<rparr> else s)"
      obtain s1 where
        s1: "kind_switch F L h (print n F L h) (printSameDepth n F L h) v s0 = Some (Inr s1)"
        and s': "s' = (if tracked v then s1\<lparr>seen := seen s1 - {v}\<rparr> else s1)"
        using r False by (auto simp: printSameDepth_enter s0_def bind_Inr)
      from sw [OF s1] have "seen s1 = seen s0" "depth s1 = depth s0" by simp_all
      then show ?thesis using s' False by (auto simp: s0_def)
    qed
  qed
  moreover have "frames (print (Suc n) F L h v)" for v
    using frames_deeper [OF q [of v]] by (simp add: print_Suc)
  ultimately show ?case by blast
qed

section \<open>More fuel changes no outcome\<close>

lemma belowI: "(\<And>s r. f s = Some r \<Longrightarrow> g s = Some r) \<Longrightarrow> below f g"
  by (simp add: below_def)

lemma belowD: "below f g \<Longrightarrow> f s = Some r \<Longrightarrow> g s = Some r"
  by (simp add: below_def)

lemma below_refl [simp]: "below f f"
  by (simp add: below_def)

lemma bind_Some:
  "bind r f = Some x \<longleftrightarrow>
     (\<exists>p. r = Some (Inl p) \<and> x = Inl p) \<or> (\<exists>s1. r = Some (Inr s1) \<and> f s1 = Some x)"
  by (auto simp: bind_def split: option.splits sum.splits)

lemma bind_mono:
  assumes "bind a k = Some r" "\<And>x. a = Some x \<Longrightarrow> a' = Some x"
    "\<And>s1. k s1 = Some r \<Longrightarrow> k' s1 = Some r"
  shows "bind a' k' = Some r"
  using assms by (auto simp: bind_Some)

lemma below_deeper: "below f g \<Longrightarrow> below (deeper F f) (deeper F g)"
  unfolding deeper_def Let_def
  by (rule belowI, erule bind_mono) (auto dest: belowD split: if_splits)

lemma below_printSlice_loop:
  "(\<And>x. below (prt x) (prt' x)) \<Longrightarrow>
   below (printSlice_loop F prt len i xs) (printSlice_loop F prt' len i xs)"
proof (induction xs arbitrary: i)
  case Nil
  then show ?case by simp
next
  case (Cons x xs)
  show ?case
  proof (rule belowI)
    fix s r
    assume r: "printSlice_loop F prt len i (x # xs) s = Some r"
    show "printSlice_loop F prt' len i (x # xs) s = Some r"
    proof (cases "MaxElements F > 0 \<and> int i \<ge> MaxElements F")
      case True
      then show ?thesis using r by (simp add: printSlice_loop_stop)
    next
      case False
      have "bind (prt x s) (\<lambda>s1.
             printSlice_loop F prt len (Suc i) xs
               (if \<not> Compact F \<or> int i \<noteq> int len - 1 then after F '','' s1 else s1)) = Some r"
        using r unfolding printSlice_loop_step [OF False] .
      then have "bind (prt' x s) (\<lambda>s1.
             printSlice_loop F prt' len (Suc i) xs
               (if \<not> Compact F \<or> int i \<noteq> int len - 1 then after F '','' s1 else s1)) = Some r"
        by (rule bind_mono) (auto dest: belowD [OF Cons.prems] belowD [OF Cons.IH [OF Cons.prems]])
      then show ?thesis unfolding printSlice_loop_step [OF False] .
    qed
  qed
qed

lemma below_printSlice:
  assumes "\<And>x. below (prt x) (prt' x)"
  shows "below (printSlice F prt h v) (printSlice F prt' h v)"
  unfolding printSlice_def Let_def
  by (rule belowI, erule bind_mono) (auto dest: belowD [OF below_printSlice_loop [OF assms]])

lemma below_printMap_loop:
  "(\<And>x. below (prt x) (prt' x)) \<Longrightarrow>
   below (printMap_loop F prt h v len i keys) (printMap_loop F prt' h v len i keys)"
proof (induction keys arbitrary: i)
  case Nil
  then show ?case by simp
next
  case (Cons key keys)
  show ?case
  proof (rule belowI)
    fix s r
    assume r: "printMap_loop F prt h v len i (key # keys) s = Some r"
    show "printMap_loop F prt' h v len i (key # keys) s = Some r"
    proof (cases "MaxElements F > 0 \<and> int i \<ge> MaxElements F")
      case True
      then show ?thesis using r by (simp add: printMap_loop_stop)
    next
      case False
      have "bind (prt key s) (\<lambda>s1.
           bind (prt (MapIndex h v key) (between F '':'' s1)) (\<lambda>s2.
             printMap_loop F prt h v len (Suc i) keys
               (if \<not> Compact F \<or> int i \<noteq> int len - 1 then after F '','' s2 else s2))) = Some r"
        using r unfolding printMap_loop_step [OF False] .
      then have "bind (prt' key s) (\<lambda>s1.
           bind (prt' (MapIndex h v key) (between F '':'' s1)) (\<lambda>s2.
             printMap_loop F prt' h v len (Suc i) keys
               (if \<not> Compact F \<or> int i \<noteq> int len - 1 then after F '','' s2 else s2))) = Some r"
        apply (rule bind_mono)
         apply (erule belowD [OF Cons.prems])
        apply (erule bind_mono)
         apply (erule belowD [OF Cons.prems])
        apply (erule belowD [OF Cons.IH [OF Cons.prems]])
        done
      then show ?thesis unfolding printMap_loop_step [OF False] .
    qed
  qed
qed

lemma below_printMap:
  assumes "\<And>x. below (prt x) (prt' x)"
  shows "below (printMap F L prt h v) (printMap F L prt' h v)"
proof (rule belowI)
  fix s r
  assume r: "printMap F L prt h v s = Some r"
  show "printMap F L prt' h v s = Some r"
  proof (cases "SortFunc (compareValues L h) (MapKeys v)")
    case (Inl p)
    then show ?thesis using r by (simp add: printMap_def)
  next
    case (Inr keys)
    show ?thesis
      using r unfolding printMap_def Inr Let_def sum.case
      by (rule bind_mono) (auto dest: belowD [OF below_printMap_loop [OF assms]])
  qed
qed

lemma below_printStruct_loop:
  "(\<And>x. below (prt x) (prt' x)) \<Longrightarrow>
   below (printStruct_loop F L prt ignore first fs) (printStruct_loop F L prt' ignore first fs)"
proof (induction fs arbitrary: first)
  case Nil
  then show ?case by simp
next
  case (Cons f fs)
  obtain sf x where f: "f = (sf, x)" by (cases f)
  show ?case
  proof (rule belowI)
    fix s r
    assume r: "printStruct_loop F L prt ignore first (f # fs) s = Some r"
    note ih = belowD [OF Cons.IH [OF Cons.prems]]
    show "printStruct_loop F L prt' ignore first (f # fs) s = Some r"
    proof (cases "skipped F L ignore sf x")
      case True
      then show ?thesis using r ih unfolding f by (simp add: printStruct_loop_skip)
    next
      case False
      show ?thesis
      proof (cases "length (Index sf) = 1")
        case bad: False
        then show ?thesis using r False unfolding f by (simp add: printStruct_loop_bad)
      next
        case True
        show ?thesis
          using r unfolding f printStruct_loop_field [OF False True]
          apply (rule bind_mono)
           apply assumption
          apply (erule bind_mono)
           apply (erule belowD [OF Cons.prems])
          apply (erule ih)
          done
      qed
    qed
  qed
qed

lemma below_printStruct:
  assumes "\<And>x. below (prt x) (prt' x)"
  shows "below (printStruct F L prt t fs) (printStruct F L prt' t fs)"
  unfolding printStruct_def Let_def
  by (rule belowI, erule bind_mono) (auto dest: belowD [OF below_printStruct_loop [OF assms]])

lemma below_kind_switch:
  assumes "\<And>x. below (prt x) (prt' x)" "\<And>x. below (psd x) (psd' x)"
  shows "below (kind_switch F L h prt psd v) (kind_switch F L h prt' psd' v)"
proof (rule belowI)
  fix s r
  assume r: "kind_switch F L h prt psd v s = Some r"
  note sl = belowD [OF below_printSlice [OF assms(1)]]
  note mp = belowD [OF below_printMap [OF assms(1)]]
  note st = belowD [OF below_printStruct [OF assms(1)]]
  note ps = belowD [OF assms(2)]
  show "kind_switch F L h prt' psd' v s = Some r"
    using r by (cases v) (auto simp: kind_switch_def dest: sl mp st ps)
qed

lemma below_print_Suc:
  "(\<forall>v. below (print n F L h v) (print (Suc n) F L h v)) \<and>
   (\<forall>v. below (printSameDepth n F L h v) (printSameDepth (Suc n) F L h v))"
proof (induction n)
  case 0
  then show ?case by (simp add: below_def)
next
  case (Suc n)
  then have p: "\<And>x. below (print n F L h x) (print (Suc n) F L h x)"
    and q: "\<And>x. below (printSameDepth n F L h x) (printSameDepth (Suc n) F L h x)"
    by simp_all
  note sw = belowD [OF below_kind_switch [of "print n F L h" "print (Suc n) F L h"
        "printSameDepth n F L h" "printSameDepth (Suc n) F L h", OF p q]]
  have "below (printSameDepth (Suc n) F L h v) (printSameDepth (Suc (Suc n)) F L h v)" for v
  proof (rule belowI)
    fix s r
    assume r: "printSameDepth (Suc n) F L h v s = Some r"
    show "printSameDepth (Suc (Suc n)) F L h v s = Some r"
    proof (cases "\<not> IsValid v \<or> (tracked v \<and> v \<in> seen s)")
      case True
      then show ?thesis
        using r by (cases "IsValid v") (auto simp: printSameDepth_nil printSameDepth_cycle)
    next
      case False
      then have v: "IsValid v" "\<not> (tracked v \<and> v \<in> seen s)" by auto
      show ?thesis
        using r unfolding printSameDepth_enter [OF v] by (rule bind_mono) (auto dest: sw)
    qed
  qed
  moreover have "below (print (Suc n) F L h v) (print (Suc (Suc n)) F L h v)" for v
    using below_deeper [OF q [of v]] by (simp add: print_Suc)
  ultimately show ?case by blast
qed

lemma print_fuel_mono:
  "n \<le> m \<Longrightarrow> print n F L h v s = Some r \<Longrightarrow> print m F L h v s = Some r"
proof (induction m)
  case 0
  then show ?case by simp
next
  case (Suc m)
  show ?case
  proof (cases "n = Suc m")
    case True
    then show ?thesis using Suc.prems by simp
  next
    case False
    then have "print m F L h v s = Some r" using Suc by simp
    then show ?thesis using below_print_Suc [of m F L h] by (auto simp only: below_def)
  qed
qed

lemma printSameDepth_fuel_mono:
  "n \<le> m \<Longrightarrow> printSameDepth n F L h v s = Some r \<Longrightarrow> printSameDepth m F L h v s = Some r"
proof (induction m)
  case 0
  then show ?case by simp
next
  case (Suc m)
  show ?case
  proof (cases "n = Suc m")
    case True
    then show ?thesis using Suc.prems by simp
  next
    case False
    then have "printSameDepth m F L h v s = Some r" using Suc by simp
    then show ?thesis using below_print_Suc [of m F L h] by (auto simp only: below_def)
  qed
qed

section \<open>The sink and the first error\<close>

lemma tracesI: "(\<And>s s'. f s = Some (Inr s') \<Longrightarrow> Q (w s, err s) (w s', err s')) \<Longrightarrow> traces Q f"
  by (simp add: traces_def)

lemma tracesD: "traces Q f \<Longrightarrow> f s = Some (Inr s') \<Longrightarrow> Q (w s, err s) (w s', err s')"
  by (simp add: traces_def)

lemma law_refl: "sink_law Q \<Longrightarrow> Q x x"
  unfolding sink_law_def by blast

lemma law_trans: "sink_law Q \<Longrightarrow> Q x y \<Longrightarrow> Q y z \<Longrightarrow> Q x z"
  unfolding sink_law_def by blast

lemma law_write: "sink_law Q \<Longrightarrow> Q (w s, err s) (w (write_str str s), err (write_str str s))"
  unfolding sink_law_def by blast

lemma law_checkWidth:
  "sink_law Q \<Longrightarrow> Q (w s, err s) (w (checkWidth F str s), err (checkWidth F str s))"
  by (simp add: checkWidth_def law_refl law_write)

lemma law_write_indent:
  "sink_law Q \<Longrightarrow> Q (w s, err s) (w (write_indent F n s), err (write_indent F n s))"
proof (induction n arbitrary: s)
  case 0
  then show ?case by (simp add: law_refl)
next
  case (Suc n)
  show ?case
    using law_trans [OF Suc.prems law_write [OF Suc.prems, of s "Indent F"]
        Suc.IH [OF Suc.prems, of "write_str (Indent F) s"]]
    by simp
qed

lemma law_pr: "sink_law Q \<Longrightarrow> Q (w s, err s) (w (pr F str s), err (pr F str s))"
proof -
  assume q: "sink_law Q"
  define s1 where "s1 = checkWidth F str s"
  define s2 where "s2 = (if \<not> Compact F \<and> col s1 = 0 then write_indent F (nat (depth s1)) s1 else s1)"
  have a: "Q (w s, err s) (w s1, err s1)" unfolding s1_def by (rule law_checkWidth [OF q])
  have b: "Q (w s1, err s1) (w s2, err s2)"
    unfolding s2_def by (simp add: law_refl [OF q] law_write_indent [OF q])
  have c: "Q (w s2, err s2) (w (write_str str s2), err (write_str str s2))"
    by (rule law_write [OF q])
  have "pr F str s = (if err s \<noteq> None then s else write_str str s2)"
    by (simp add: pr_def s1_def s2_def Let_def)
  then show ?thesis
    using law_trans [OF q law_trans [OF q a b] c] law_refl [OF q] by auto
qed

lemma law_after: "sink_law Q \<Longrightarrow> Q (w s, err s) (w (after F str s), err (after F str s))"
proof -
  assume q: "sink_law Q"
  define s1 where "s1 = checkWidth F [] (write_str str s)"
  have a: "Q (w s, err s) (w s1, err s1)"
    unfolding s1_def by (rule law_trans [OF q law_write [OF q] law_checkWidth [OF q]])
  have "after F str s =
      (if col s1 \<noteq> 0 then (if Compact F then write_str '' '' s1 else write_str [CHR 0x0A] s1)
       else s1)"
    by (simp add: after_def s1_def Let_def)
  then show ?thesis
    using a law_trans [OF q a law_write [OF q, of s1]] by auto
qed

lemma law_between: "sink_law Q \<Longrightarrow> Q (w s, err s) (w (between F str s), err (between F str s))"
proof -
  assume q: "sink_law Q"
  define s1 where "s1 = checkWidth F [] (write_str str s)"
  have a: "Q (w s, err s) (w s1, err s1)"
    unfolding s1_def by (rule law_trans [OF q law_write [OF q] law_checkWidth [OF q]])
  have "between F str s = (if col s1 \<noteq> 0 then write_str '' '' s1 else s1)"
    by (simp add: between_def s1_def Let_def)
  then show ?thesis
    using a law_trans [OF q a law_write [OF q, of s1]] by auto
qed

lemma traces_deeper:
  assumes q: "sink_law Q" and f: "traces Q f"
  shows "traces Q (deeper F f)"
proof (rule tracesI)
  fix s s'
  assume r: "deeper F f s = Some (Inr s')"
  define s1 where "s1 = s\<lparr>depth := depth s + 1\<rparr>"
  obtain s2 where s2: "(if depth s1 > MaxDepth F then ret (pr F ''<maxdepth>'' s1) else f s1)
      = Some (Inr s2)" and s': "s' = s2\<lparr>depth := depth s2 - 1\<rparr>"
    using r unfolding deeper_def s1_def Let_def bind_Inr by auto
  have "Q (w s1, err s1) (w s2, err s2)"
  proof (cases "depth s1 > MaxDepth F")
    case True
    then show ?thesis using s2 law_pr [OF q, of s1] by auto
  next
    case False
    then show ?thesis using s2 tracesD [OF f] by auto
  qed
  then show "Q (w s, err s) (w s', err s')"
    by (simp add: s' s1_def)
qed

lemma traces_printSlice_loop:
  assumes q: "sink_law Q" and p: "\<And>x. traces Q (prt x)"
  shows "traces Q (printSlice_loop F prt len i xs)"
proof (induction xs arbitrary: i)
  case Nil
  then show ?case by (simp add: traces_def law_refl [OF q])
next
  case (Cons x xs)
  show ?case
  proof (rule tracesI)
    fix s s'
    assume r: "printSlice_loop F prt len i (x # xs) s = Some (Inr s')"
    show "Q (w s, err s) (w s', err s')"
    proof (cases "MaxElements F > 0 \<and> int i \<ge> MaxElements F")
      case True
      then show ?thesis
        using r law_pr [OF q, of s F "''...''"]
          law_pr [OF q, of "s\<lparr>depth := depth s + 1\<rparr>" F "''...'' @ [CHR 0x0A]"]
        by (cases "Compact F") (auto simp: printSlice_loop_stop Let_def)
    next
      case False
      then obtain s1 where s1: "prt x s = Some (Inr s1)"
        and r2: "printSlice_loop F prt len (Suc i) xs
               (if \<not> Compact F \<or> int i \<noteq> int len - 1 then after F '','' s1 else s1) = Some (Inr s')"
        using r by (auto simp: printSlice_loop_step bind_Inr)
      define s2 where "s2 = (if \<not> Compact F \<or> int i \<noteq> int len - 1 then after F '','' s1 else s1)"
      have a: "Q (w s, err s) (w s1, err s1)" by (rule tracesD [OF p s1])
      have b: "Q (w s1, err s1) (w s2, err s2)"
        unfolding s2_def using law_after [OF q, of s1] law_refl [OF q] by auto
      have c: "Q (w s2, err s2) (w s', err s')"
        using tracesD [OF Cons.IH r2 [folded s2_def]] .
      show ?thesis by (rule law_trans [OF q law_trans [OF q a b] c])
    qed
  qed
qed

lemma traces_printSlice:
  assumes q: "sink_law Q" and p: "\<And>x. traces Q (prt x)"
  shows "traces Q (printSlice F prt h v)"
proof (rule tracesI)
  fix s s'
  assume r: "printSlice F prt h v s = Some (Inr s')"
  define s1 where "s1 =
    (if Kind v = KArray then pr F (''['' @ Itoa (int (length (elems h v))) @ '']{'') s
     else pr F ''[]{'' s)"
  define s2 where "s2 = (if \<not> Compact F then pr F [CHR 0x0A] s1 else s1)"
  have "bind (printSlice_loop F prt (length (elems h v)) 0 (elems h v) s2)
          (\<lambda>s3. ret (pr F ''}'' s3)) = Some (Inr s')"
    using r unfolding printSlice_def Let_def s2_def s1_def .
  then obtain s3 where
    s3: "printSlice_loop F prt (length (elems h v)) 0 (elems h v) s2 = Some (Inr s3)"
    and s': "s' = pr F ''}'' s3"
    by (auto simp: bind_Inr)
  have a: "Q (w s, err s) (w s1, err s1)" unfolding s1_def using law_pr [OF q, of s] by auto
  have b: "Q (w s1, err s1) (w s2, err s2)"
    unfolding s2_def using law_pr [OF q, of s1] law_refl [OF q] by auto
  have c: "Q (w s2, err s2) (w s3, err s3)"
    by (rule tracesD [OF traces_printSlice_loop [OF q p] s3])
  have d: "Q (w s3, err s3) (w s', err s')" unfolding s' by (rule law_pr [OF q])
  show "Q (w s, err s) (w s', err s')"
    by (rule law_trans [OF q law_trans [OF q law_trans [OF q a b] c] d])
qed

lemma traces_printMap_loop:
  assumes q: "sink_law Q" and p: "\<And>x. traces Q (prt x)"
  shows "traces Q (printMap_loop F prt h v len i keys)"
proof (induction keys arbitrary: i)
  case Nil
  then show ?case by (simp add: traces_def law_refl [OF q])
next
  case (Cons key keys)
  show ?case
  proof (rule tracesI)
    fix s s'
    assume r: "printMap_loop F prt h v len i (key # keys) s = Some (Inr s')"
    show "Q (w s, err s) (w s', err s')"
    proof (cases "MaxElements F > 0 \<and> int i \<ge> MaxElements F")
      case True
      then show ?thesis
        using r law_pr [OF q, of s F "''...''"] by (auto simp: printMap_loop_stop)
    next
      case False
      then obtain s1 s2 where s1: "prt key s = Some (Inr s1)"
        and s2: "prt (MapIndex h v key) (between F '':'' s1) = Some (Inr s2)"
        and r2: "printMap_loop F prt h v len (Suc i) keys
               (if \<not> Compact F \<or> int i \<noteq> int len - 1 then after F '','' s2 else s2) = Some (Inr s')"
        using r by (auto simp: printMap_loop_step bind_Inr)
      define s3 where "s3 = (if \<not> Compact F \<or> int i \<noteq> int len - 1 then after F '','' s2 else s2)"
      have a: "Q (w s, err s) (w s1, err s1)" by (rule tracesD [OF p s1])
      have b: "Q (w s1, err s1) (w (between F '':'' s1), err (between F '':'' s1))"
        by (rule law_between [OF q])
      have c: "Q (w (between F '':'' s1), err (between F '':'' s1)) (w s2, err s2)"
        by (rule tracesD [OF p s2])
      have d: "Q (w s2, err s2) (w s3, err s3)"
        unfolding s3_def using law_after [OF q, of s2] law_refl [OF q] by auto
      have e: "Q (w s3, err s3) (w s', err s')"
        using tracesD [OF Cons.IH r2 [folded s3_def]] .
      show ?thesis
        by (rule law_trans [OF q law_trans [OF q law_trans [OF q law_trans [OF q a b] c] d] e])
    qed
  qed
qed

lemma traces_printMap:
  assumes q: "sink_law Q" and p: "\<And>x. traces Q (prt x)"
  shows "traces Q (printMap F L prt h v)"
proof (rule tracesI)
  fix s s'
  assume r: "printMap F L prt h v s = Some (Inr s')"
  define s1 where "s1 = pr F ''{'' s"
  define s2 where "s2 = (if \<not> Compact F then pr F [CHR 0x0A] s1 else s1)"
  obtain keys where keys: "SortFunc (compareValues L h) (MapKeys v) = Inr keys"
    using r unfolding printMap_def by (cases "SortFunc (compareValues L h) (MapKeys v)") auto
  have "bind (printMap_loop F prt h v (length keys) 0 keys s2)
          (\<lambda>s3. ret (pr F ''}'' s3)) = Some (Inr s')"
    using r unfolding printMap_def keys sum.case Let_def s2_def s1_def .
  then obtain s3 where s3: "printMap_loop F prt h v (length keys) 0 keys s2 = Some (Inr s3)"
    and s': "s' = pr F ''}'' s3"
    by (auto simp: bind_Inr)
  have a: "Q (w s, err s) (w s1, err s1)" unfolding s1_def by (rule law_pr [OF q])
  have b: "Q (w s1, err s1) (w s2, err s2)"
    unfolding s2_def using law_pr [OF q, of s1] law_refl [OF q] by auto
  have c: "Q (w s2, err s2) (w s3, err s3)"
    by (rule tracesD [OF traces_printMap_loop [OF q p] s3])
  have d: "Q (w s3, err s3) (w s', err s')" unfolding s' by (rule law_pr [OF q])
  show "Q (w s, err s) (w s', err s')"
    by (rule law_trans [OF q law_trans [OF q law_trans [OF q a b] c] d])
qed

lemma traces_printStruct_loop:
  assumes q: "sink_law Q" and p: "\<And>x. traces Q (prt x)"
  shows "traces Q (printStruct_loop F L prt ignore first fs)"
proof (induction fs arbitrary: first)
  case Nil
  then show ?case by (simp add: traces_def law_refl [OF q])
next
  case (Cons f fs)
  obtain sf x where f: "f = (sf, x)" by (cases f)
  have name: "traces Q (deeper F (\<lambda>s'. ret (pr F (Name sf) s')))"
    by (rule traces_deeper [OF q]) (simp add: traces_def law_pr [OF q])
  show ?case
  proof (rule tracesI)
    fix s s'
    assume r: "printStruct_loop F L prt ignore first (f # fs) s = Some (Inr s')"
    show "Q (w s, err s) (w s', err s')"
    proof (cases "skipped F L ignore sf x")
      case True
      then show ?thesis using r tracesD [OF Cons.IH] unfolding f by (simp add: printStruct_loop_skip)
    next
      case False
      then have one: "length (Index sf) = 1"
        using r unfolding f by (cases "length (Index sf) = 1") (simp_all add: printStruct_loop_bad)
      define s1 where "s1 = (if \<not> first \<and> Compact F then pr F '', '' s else s)"
      obtain s2 s3 where s2: "deeper F (\<lambda>s'. ret (pr F (Name sf) s')) s1 = Some (Inr s2)"
        and s3: "prt x (between F '':'' s2) = Some (Inr s3)"
        and r2: "printStruct_loop F L prt ignore False fs
                   (if \<not> Compact F then pr F [CHR 0x0A] s3 else s3) = Some (Inr s')"
        using r unfolding f printStruct_loop_field [OF False one] s1_def by (auto simp: bind_Inr)
      define s4 where "s4 = (if \<not> Compact F then pr F [CHR 0x0A] s3 else s3)"
      have a: "Q (w s, err s) (w s1, err s1)"
        unfolding s1_def using law_pr [OF q, of s] law_refl [OF q] by auto
      have b: "Q (w s1, err s1) (w s2, err s2)" by (rule tracesD [OF name s2])
      have c: "Q (w s2, err s2) (w (between F '':'' s2), err (between F '':'' s2))"
        by (rule law_between [OF q])
      have d: "Q (w (between F '':'' s2), err (between F '':'' s2)) (w s3, err s3)"
        by (rule tracesD [OF p s3])
      have e: "Q (w s3, err s3) (w s4, err s4)"
        unfolding s4_def using law_pr [OF q, of s3] law_refl [OF q] by auto
      have g: "Q (w s4, err s4) (w s', err s')"
        using tracesD [OF Cons.IH r2 [folded s4_def]] .
      show ?thesis
        by (rule law_trans [OF q law_trans [OF q law_trans [OF q law_trans [OF q
                law_trans [OF q a b] c] d] e] g])
    qed
  qed
qed

lemma traces_printStruct:
  assumes q: "sink_law Q" and p: "\<And>x. traces Q (prt x)"
  shows "traces Q (printStruct F L prt t fs)"
proof (rule tracesI)
  fix s s'
  assume r: "printStruct F L prt t fs s = Some (Inr s')"
  define s1 where "s1 = pr F (typeName F t @ ''{'') s"
  define s2 where "s2 = (if \<not> Compact F then pr F [CHR 0x0A] s1 else s1)"
  have "bind (printStruct_loop F L prt (ignoreFields F t) True fs s2)
          (\<lambda>s3. ret (pr F ''}'' s3)) = Some (Inr s')"
    using r unfolding printStruct_def Let_def s2_def s1_def .
  then obtain s3 where s3: "printStruct_loop F L prt (ignoreFields F t) True fs s2 = Some (Inr s3)"
    and s': "s' = pr F ''}'' s3"
    by (auto simp: bind_Inr)
  have a: "Q (w s, err s) (w s1, err s1)" unfolding s1_def by (rule law_pr [OF q])
  have b: "Q (w s1, err s1) (w s2, err s2)"
    unfolding s2_def using law_pr [OF q, of s1] law_refl [OF q] by auto
  have c: "Q (w s2, err s2) (w s3, err s3)"
    by (rule tracesD [OF traces_printStruct_loop [OF q p] s3])
  have d: "Q (w s3, err s3) (w s', err s')" unfolding s' by (rule law_pr [OF q])
  show "Q (w s, err s) (w s', err s')"
    by (rule law_trans [OF q law_trans [OF q law_trans [OF q a b] c] d])
qed

lemma traces_kind_switch:
  assumes q: "sink_law Q" and p: "\<And>x. traces Q (prt x)" and d: "\<And>x. traces Q (psd x)"
  shows "traces Q (kind_switch F L h prt psd v)"
proof (rule tracesI)
  fix s s'
  assume r: "kind_switch F L h prt psd v s = Some (Inr s')"
  note sl = tracesD [OF traces_printSlice [OF q p]]
  note mp = tracesD [OF traces_printMap [OF q p]]
  note st = tracesD [OF traces_printStruct [OF q p]]
  note ps = tracesD [OF d]
  note pr = law_pr [OF q, of s F]
  show "Q (w s, err s) (w s', err s')"
  proof (cases v)
    case (VPointer t p)
    then have "psd (Elem h v) (pr F ''&'' s) = Some (Inr s')"
      using r by (simp add: kind_switch_def)
    from law_trans [OF q pr ps [OF this]] show ?thesis .
  qed (use r pr in \<open>auto simp: kind_switch_def dest: sl mp st ps\<close>)
qed

lemma traces_print_both:
  assumes q: "sink_law Q"
  shows "(\<forall>v. traces Q (print n F L h v)) \<and> (\<forall>v. traces Q (printSameDepth n F L h v))"
proof (induction n)
  case 0
  then show ?case by (simp add: traces_def)
next
  case (Suc n)
  then have p: "\<And>x. traces Q (print n F L h x)" and d: "\<And>x. traces Q (printSameDepth n F L h x)"
    by simp_all
  note sw = tracesD [OF traces_kind_switch [of Q "print n F L h" "printSameDepth n F L h", OF q p d]]
  have "traces Q (printSameDepth (Suc n) F L h v)" for v
  proof (rule tracesI)
    fix s s'
    assume r: "printSameDepth (Suc n) F L h v s = Some (Inr s')"
    show "Q (w s, err s) (w s', err s')"
    proof (cases "\<not> IsValid v \<or> (tracked v \<and> v \<in> seen s)")
      case True
      then show ?thesis
        using r law_pr [OF q, of s F]
        by (cases "IsValid v") (auto simp: printSameDepth_nil printSameDepth_cycle)
    next
      case False
      define s0 where "s0 = (if tracked v then s\<lparr>seen := insert v (seen s)\<rparr> else s)"
      obtain s1 where
        s1: "kind_switch F L h (print n F L h) (printSameDepth n F L h) v s0 = Some (Inr s1)"
        and s': "s' = (if tracked v then s1\<lparr>seen := seen s1 - {v}\<rparr> else s1)"
        using r False by (auto simp: printSameDepth_enter s0_def bind_Inr)
      from sw [OF s1] show ?thesis using s' by (auto simp: s0_def split: if_splits)
    qed
  qed
  moreover have "traces Q (print (Suc n) F L h v)" for v
    using traces_deeper [OF q d [of v]] by (simp add: print_Suc)
  ultimately show ?case by blast
qed

lemma first_error_refl: "first_error x x"
  by (auto simp: first_error_def split: option.splits)

lemma first_error_trans:
  assumes "first_error x y" "first_error y z"
  shows "first_error x z"
proof (cases "snd x")
  case (Some e)
  then show ?thesis using assms by (auto simp: first_error_def)
next
  case xn: None
  show ?thesis
  proof (cases "snd y")
    case (Some e)
    then have "z = y" using assms(2) by (auto simp: first_error_def)
    then show ?thesis using assms(1) by simp
  next
    case yn: None
    have f: "fails (fst y) = fails (fst x)" "nwrites (fst x) \<le> nwrites (fst y)"
      "\<forall>i. nwrites (fst x) \<le> i \<and> i < nwrites (fst y) \<longrightarrow> fails (fst x) i = None"
      "prefix (written (fst x)) (written (fst y))"
      using assms(1) xn yn by (auto simp: first_error_def)
    have g: "fails (fst z) = fails (fst y)" "nwrites (fst y) \<le> nwrites (fst z)"
      "prefix (written (fst y)) (written (fst z))"
      using assms(2) by (auto simp: first_error_def)
    show ?thesis
    proof (cases "snd z")
      case None
      then have "\<forall>i. nwrites (fst y) \<le> i \<and> i < nwrites (fst z) \<longrightarrow> fails (fst y) i = None"
        using assms(2) yn by (auto simp: first_error_def)
      then have "\<forall>i. nwrites (fst x) \<le> i \<and> i < nwrites (fst z) \<longrightarrow> fails (fst x) i = None"
        using f by (metis not_le_imp_less)
      then show ?thesis using f g xn None by (auto simp: first_error_def)
    next
      case (Some e)
      then obtain k m where k: "nwrites (fst z) = Suc k" "nwrites (fst y) \<le> k"
        "fails (fst y) k = Some (e, m)"
        "\<forall>i. nwrites (fst y) \<le> i \<and> i < k \<longrightarrow> fails (fst y) i = None"
        using assms(2) yn by (auto simp: first_error_def)
      have "\<forall>i. nwrites (fst x) \<le> i \<and> i < k \<longrightarrow> fails (fst x) i = None"
        using f k by (metis not_le_imp_less)
      moreover have "nwrites (fst x) \<le> k" using f k by simp
      ultimately show ?thesis
        using f g xn Some k unfolding first_error_def by (auto intro!: exI [of _ k])
    qed
  qed
qed

lemma first_error_write:
  "first_error (w s, err s) (w (write_str str s), err (write_str str s))"
proof (cases "err s")
  case (Some e)
  then show ?thesis by (simp add: write_str_def first_error_refl)
next
  case None
  show ?thesis
  proof (cases "fails (w s) (nwrites (w s))")
    case n: None
    then show ?thesis
      using None by (auto simp: write_str_def WriteString_def first_error_def Let_def less_Suc_eq)
  next
    case (Some em)
    then obtain e m where "em = (e, m)" by (cases em)
    then show ?thesis
      using None Some
      by (auto simp: write_str_def WriteString_def first_error_def Let_def
          intro!: exI [of _ "nwrites (w s)"])
  qed
qed

lemma sink_law_first_error: "sink_law first_error"
  unfolding sink_law_def
  using first_error_refl first_error_trans first_error_write by blast

lemma print_first_error:
  "print n F L h v s = Some (Inr s') \<Longrightarrow> first_error (w s, err s) (w s', err s')"
  using traces_print_both [OF sink_law_first_error, of n F L h] by (auto dest: tracesD)

lemma Fprint_unfold:
  "Fprint n F L h snk x =
     (let F1 = (if Indent F = [] then F\<lparr>Indent := ''    ''\<rparr> else F);
          F2 = (if MaxDepth F1 \<le> 0 then F1\<lparr>MaxDepth := 100\<rparr> else F1)
      in case print n F2 L h x \<lparr>w = snk, seen = {}, depth = - 1, col = 0, err = None\<rparr> of
           None \<Rightarrow> None
         | Some (Inl p) \<Rightarrow> Some (Inl p)
         | Some (Inr s') \<Rightarrow>
             if err s' \<noteq> None then Some (Inr (w s', err s'))
             else if col s' \<noteq> 0 \<and> \<not> Compact F2
             then Some (Inr (WriteString (w s') [CHR 0x0A]))
             else Some (Inr (w s', None)))"
  by (simp add: Fprint_def Let_def)

lemma Fprint_trace:
  assumes "Fprint n F L h snk x = Some (Inr (snk', e))"
  shows "prefix (written snk) (written snk') \<and>
         (case e of
            None \<Rightarrow> (\<forall>i. nwrites snk \<le> i \<and> i < nwrites snk' \<longrightarrow> fails snk i = None)
          | Some er \<Rightarrow>
              (\<exists>k m. nwrites snk' = Suc k \<and> nwrites snk \<le> k \<and> fails snk k = Some (er, m) \<and>
                 (\<forall>i. nwrites snk \<le> i \<and> i < k \<longrightarrow> fails snk i = None)))"
proof -
  define F2 where "F2 =
    (let F1 = (if Indent F = [] then F\<lparr>Indent := ''    ''\<rparr> else F)
     in if MaxDepth F1 \<le> 0 then F1\<lparr>MaxDepth := 100\<rparr> else F1)"
  define s0 where "s0 = \<lparr>w = snk, seen = {}, depth = - 1, col = 0, err = None\<rparr>"
  have u: "Fprint n F L h snk x =
     (case print n F2 L h x s0 of
           None \<Rightarrow> None
         | Some (Inl p) \<Rightarrow> Some (Inl p)
         | Some (Inr s') \<Rightarrow>
             if err s' \<noteq> None then Some (Inr (w s', err s'))
             else if col s' \<noteq> 0 \<and> \<not> Compact F2
             then Some (Inr (WriteString (w s') [CHR 0x0A]))
             else Some (Inr (w s', None)))"
    unfolding Fprint_unfold F2_def s0_def Let_def ..
  obtain s' where s': "print n F2 L h x s0 = Some (Inr s')"
    using assms unfolding u by (auto split: option.splits sum.splits)
  have a: "first_error (snk, None) (w s', err s')"
    using print_first_error [OF s'] by (simp add: s0_def)
  have "first_error (snk, None) (snk', e)"
  proof (cases "err s' \<noteq> None \<or> \<not> (col s' \<noteq> 0 \<and> \<not> Compact F2)")
    case True
    then have "(snk', e) = (w s', err s')" using assms unfolding u s' by (auto split: if_splits)
    then show ?thesis using a by simp
  next
    case False
    then have "(snk', e) = WriteString (w s') [CHR 0x0A]"
      using assms unfolding u s' by (auto split: if_splits)
    moreover have "(w (write_str [CHR 0x0A] s'), err (write_str [CHR 0x0A] s')) =
        WriteString (w s') [CHR 0x0A]"
      using False by (auto simp: write_str_def Let_def split: prod.splits)
    ultimately have "first_error (w s', err s') (snk', e)"
      using first_error_write [of s' "[CHR 0x0A]"] by simp
    then show ?thesis using a first_error_trans by blast
  qed
  then show ?thesis by (cases e) (simp_all add: first_error_def)
qed

section \<open>The outcome does not depend on the sink\<close>

lemma uniformI:
  "(\<And>s t. seen s = seen t \<Longrightarrow> depth s = depth t \<Longrightarrow> alike (f s) (f t)) \<Longrightarrow> uniform f"
  by (simp add: uniform_def)

lemma uniformD: "uniform f \<Longrightarrow> seen s = seen t \<Longrightarrow> depth s = depth t \<Longrightarrow> alike (f s) (f t)"
  by (simp add: uniform_def)

lemma alike_ret [simp]: "alike (ret s) (ret t)"
  by (simp add: alike_def ret_def)

lemma alike_panic [simp]: "alike (Some (Inl p)) (Some (Inl p))"
  by (simp add: alike_def)

lemma alike_bind:
  assumes "alike r r'" "\<And>s1 t1. r = Some (Inr s1) \<Longrightarrow> r' = Some (Inr t1) \<Longrightarrow> alike (k s1) (k' t1)"
  shows "alike (bind r k) (bind r' k')"
proof (cases r)
  case None
  then show ?thesis using assms(1) by (simp add: alike_def bind_def)
next
  case (Some x)
  show ?thesis
  proof (cases x)
    case (Inl p)
    then show ?thesis using assms(1) Some by (simp add: alike_def bind_def)
  next
    case (Inr s1)
    then obtain t1 where t1: "r' = Some (Inr t1)" using assms(1) Some by (auto simp: alike_def)
    show ?thesis using assms(2) [OF _ t1] Some Inr t1 by (simp add: bind_def)
  qed
qed

lemma uniform_deeper:
  assumes "uniform f"
  shows "uniform (deeper F f)"
proof (rule uniformI)
  fix s t :: state
  assume st: "seen s = seen t" "depth s = depth t"
  show "alike (deeper F f s) (deeper F f t)"
    unfolding deeper_def Let_def
    by (rule alike_bind) (use st uniformD [OF assms] in auto)
qed

lemma uniform_printSlice_loop:
  assumes u: "\<And>x. uniform (prt x)" and f: "\<And>x. frames (prt x)"
  shows "uniform (printSlice_loop F prt len i xs)"
proof (induction xs arbitrary: i)
  case Nil
  then show ?case by (simp add: uniform_def)
next
  case (Cons x xs)
  show ?case
  proof (rule uniformI)
    fix s t :: state
    assume st: "seen s = seen t" "depth s = depth t"
    show "alike (printSlice_loop F prt len i (x # xs) s) (printSlice_loop F prt len i (x # xs) t)"
    proof (cases "MaxElements F > 0 \<and> int i \<ge> MaxElements F")
      case True
      then show ?thesis by (simp add: printSlice_loop_stop)
    next
      case False
      show ?thesis
        unfolding printSlice_loop_step [OF False]
      proof (rule alike_bind)
        show "alike (prt x s) (prt x t)" by (rule uniformD [OF u st])
      next
        fix s1 t1
        assume "prt x s = Some (Inr s1)" "prt x t = Some (Inr t1)"
        then have "seen s1 = seen t1" "depth s1 = depth t1"
          using framesD [OF f] st by auto
        then show "alike
            (printSlice_loop F prt len (Suc i) xs
              (if \<not> Compact F \<or> int i \<noteq> int len - 1 then after F '','' s1 else s1))
            (printSlice_loop F prt len (Suc i) xs
              (if \<not> Compact F \<or> int i \<noteq> int len - 1 then after F '','' t1 else t1))"
          by (intro uniformD [OF Cons.IH]) auto
      qed
    qed
  qed
qed

lemma uniform_printSlice:
  assumes u: "\<And>x. uniform (prt x)" and f: "\<And>x. frames (prt x)"
  shows "uniform (printSlice F prt h v)"
proof (rule uniformI)
  fix s t :: state
  assume st: "seen s = seen t" "depth s = depth t"
  show "alike (printSlice F prt h v s) (printSlice F prt h v t)"
    unfolding printSlice_def Let_def
    by (rule alike_bind, rule uniformD [OF uniform_printSlice_loop [OF u f]]) (use st in auto)
qed

lemma uniform_printMap_loop:
  assumes u: "\<And>x. uniform (prt x)" and f: "\<And>x. frames (prt x)"
  shows "uniform (printMap_loop F prt h v len i keys)"
proof (induction keys arbitrary: i)
  case Nil
  then show ?case by (simp add: uniform_def)
next
  case (Cons key keys)
  show ?case
  proof (rule uniformI)
    fix s t :: state
    assume st: "seen s = seen t" "depth s = depth t"
    show "alike (printMap_loop F prt h v len i (key # keys) s)
            (printMap_loop F prt h v len i (key # keys) t)"
    proof (cases "MaxElements F > 0 \<and> int i \<ge> MaxElements F")
      case True
      then show ?thesis by (simp add: printMap_loop_stop)
    next
      case False
      show ?thesis
        unfolding printMap_loop_step [OF False]
      proof (rule alike_bind)
        show "alike (prt key s) (prt key t)" by (rule uniformD [OF u st])
      next
        fix s1 t1
        assume "prt key s = Some (Inr s1)" "prt key t = Some (Inr t1)"
        then have st1: "seen s1 = seen t1" "depth s1 = depth t1"
          using framesD [OF f] st by auto
        show "alike
            (bind (prt (MapIndex h v key) (between F '':'' s1)) (\<lambda>s2.
               printMap_loop F prt h v len (Suc i) keys
                 (if \<not> Compact F \<or> int i \<noteq> int len - 1 then after F '','' s2 else s2)))
            (bind (prt (MapIndex h v key) (between F '':'' t1)) (\<lambda>s2.
               printMap_loop F prt h v len (Suc i) keys
                 (if \<not> Compact F \<or> int i \<noteq> int len - 1 then after F '','' s2 else s2)))"
        proof (rule alike_bind)
          show "alike (prt (MapIndex h v key) (between F '':'' s1))
                  (prt (MapIndex h v key) (between F '':'' t1))"
            by (rule uniformD [OF u]) (use st1 in auto)
        next
          fix s2 t2
          assume "prt (MapIndex h v key) (between F '':'' s1) = Some (Inr s2)"
            "prt (MapIndex h v key) (between F '':'' t1) = Some (Inr t2)"
          then have "seen s2 = seen t2" "depth s2 = depth t2"
            using framesD [OF f] st1 by auto
          then show "alike
              (printMap_loop F prt h v len (Suc i) keys
                (if \<not> Compact F \<or> int i \<noteq> int len - 1 then after F '','' s2 else s2))
              (printMap_loop F prt h v len (Suc i) keys
                (if \<not> Compact F \<or> int i \<noteq> int len - 1 then after F '','' t2 else t2))"
            by (intro uniformD [OF Cons.IH]) auto
        qed
      qed
    qed
  qed
qed

lemma uniform_printMap:
  assumes u: "\<And>x. uniform (prt x)" and f: "\<And>x. frames (prt x)"
  shows "uniform (printMap F L prt h v)"
proof (rule uniformI)
  fix s t :: state
  assume st: "seen s = seen t" "depth s = depth t"
  show "alike (printMap F L prt h v s) (printMap F L prt h v t)"
  proof (cases "SortFunc (compareValues L h) (MapKeys v)")
    case (Inl p)
    then show ?thesis by (simp add: printMap_def)
  next
    case (Inr keys)
    show ?thesis
      unfolding printMap_def Inr sum.case Let_def
      by (rule alike_bind, rule uniformD [OF uniform_printMap_loop [OF u f]]) (use st in auto)
  qed
qed

lemma uniform_printStruct_loop:
  assumes u: "\<And>x. uniform (prt x)" and f: "\<And>x. frames (prt x)"
  shows "uniform (printStruct_loop F L prt ignore first fs)"
proof (induction fs arbitrary: first)
  case Nil
  then show ?case by (simp add: uniform_def)
next
  case (Cons fd fs)
  obtain sf x where fd: "fd = (sf, x)" by (cases fd)
  have name_u: "uniform (deeper F (\<lambda>s'. ret (pr F (Name sf) s')))"
    by (rule uniform_deeper) (simp add: uniform_def)
  have name_f: "frames (deeper F (\<lambda>s'. ret (pr F (Name sf) s')))"
    by (rule frames_deeper) (simp add: frames_def)
  show ?case
  proof (rule uniformI)
    fix s t :: state
    assume st: "seen s = seen t" "depth s = depth t"
    show "alike (printStruct_loop F L prt ignore first (fd # fs) s)
            (printStruct_loop F L prt ignore first (fd # fs) t)"
    proof (cases "skipped F L ignore sf x")
      case True
      then show ?thesis
        using uniformD [OF Cons.IH st] unfolding fd by (simp add: printStruct_loop_skip)
    next
      case False
      show ?thesis
      proof (cases "length (Index sf) = 1")
        case bad: False
        then show ?thesis using False unfolding fd by (simp add: printStruct_loop_bad)
      next
        case True
        show ?thesis
          unfolding fd printStruct_loop_field [OF False True]
        proof (rule alike_bind)
          show "alike
              (deeper F (\<lambda>s'. ret (pr F (Name sf) s')) (if \<not> first \<and> Compact F then pr F '', '' s else s))
              (deeper F (\<lambda>s'. ret (pr F (Name sf) s')) (if \<not> first \<and> Compact F then pr F '', '' t else t))"
            by (rule uniformD [OF name_u]) (use st in auto)
        next
          fix s2 t2
          assume "deeper F (\<lambda>s'. ret (pr F (Name sf) s'))
                    (if \<not> first \<and> Compact F then pr F '', '' s else s) = Some (Inr s2)"
            "deeper F (\<lambda>s'. ret (pr F (Name sf) s'))
                    (if \<not> first \<and> Compact F then pr F '', '' t else t) = Some (Inr t2)"
          then have st2: "seen s2 = seen t2" "depth s2 = depth t2"
            using framesD [OF name_f] st by (auto split: if_splits)
          show "alike
              (bind (prt x (between F '':'' s2)) (\<lambda>s3.
                 printStruct_loop F L prt ignore False fs
                   (if \<not> Compact F then pr F [CHR 0x0A] s3 else s3)))
              (bind (prt x (between F '':'' t2)) (\<lambda>s3.
                 printStruct_loop F L prt ignore False fs
                   (if \<not> Compact F then pr F [CHR 0x0A] s3 else s3)))"
          proof (rule alike_bind)
            show "alike (prt x (between F '':'' s2)) (prt x (between F '':'' t2))"
              by (rule uniformD [OF u]) (use st2 in auto)
          next
            fix s3 t3
            assume "prt x (between F '':'' s2) = Some (Inr s3)"
              "prt x (between F '':'' t2) = Some (Inr t3)"
            then have "seen s3 = seen t3" "depth s3 = depth t3"
              using framesD [OF f] st2 by auto
            then show "alike
                (printStruct_loop F L prt ignore False fs
                  (if \<not> Compact F then pr F [CHR 0x0A] s3 else s3))
                (printStruct_loop F L prt ignore False fs
                  (if \<not> Compact F then pr F [CHR 0x0A] t3 else t3))"
              by (intro uniformD [OF Cons.IH]) auto
          qed
        qed
      qed
    qed
  qed
qed

lemma uniform_printStruct:
  assumes u: "\<And>x. uniform (prt x)" and f: "\<And>x. frames (prt x)"
  shows "uniform (printStruct F L prt t fs)"
proof (rule uniformI)
  fix s s2 :: state
  assume st: "seen s = seen s2" "depth s = depth s2"
  show "alike (printStruct F L prt t fs s) (printStruct F L prt t fs s2)"
    unfolding printStruct_def Let_def
    by (rule alike_bind, rule uniformD [OF uniform_printStruct_loop [OF u f]]) (use st in auto)
qed

lemma uniform_kind_switch:
  assumes u: "\<And>x. uniform (prt x)" and f: "\<And>x. frames (prt x)" and d: "\<And>x. uniform (psd x)"
  shows "uniform (kind_switch F L h prt psd v)"
proof (rule uniformI)
  fix s t :: state
  assume st: "seen s = seen t" "depth s = depth t"
  note sl = uniformD [OF uniform_printSlice [OF u f] st]
  note mp = uniformD [OF uniform_printMap [OF u f] st]
  note sr = uniformD [OF uniform_printStruct [OF u f] st]
  note ps = uniformD [OF d]
  show "alike (kind_switch F L h prt psd v s) (kind_switch F L h prt psd v t)"
    using st by (cases v) (auto simp: kind_switch_def intro: sl mp sr ps)
qed

lemma uniform_print_both:
  "(\<forall>v. uniform (print n F L h v)) \<and> (\<forall>v. uniform (printSameDepth n F L h v))"
proof (induction n)
  case 0
  then show ?case by (simp add: uniform_def alike_def)
next
  case (Suc n)
  then have p: "\<And>x. uniform (print n F L h x)" and d: "\<And>x. uniform (printSameDepth n F L h x)"
    by simp_all
  have fp: "\<And>x. frames (print n F L h x)"
    using frames_print_both [of n F L h] by simp
  note sw = uniformD [OF uniform_kind_switch [of "print n F L h" "printSameDepth n F L h",
        OF p fp d]]
  have "uniform (printSameDepth (Suc n) F L h v)" for v
  proof (rule uniformI)
    fix s t :: state
    assume st: "seen s = seen t" "depth s = depth t"
    show "alike (printSameDepth (Suc n) F L h v s) (printSameDepth (Suc n) F L h v t)"
    proof (cases "\<not> IsValid v \<or> (tracked v \<and> v \<in> seen s)")
      case True
      then show ?thesis
        using st by (cases "IsValid v") (auto simp: printSameDepth_nil printSameDepth_cycle)
    next
      case False
      then have v: "IsValid v" "\<not> (tracked v \<and> v \<in> seen s)" "\<not> (tracked v \<and> v \<in> seen t)"
        using st by auto
      show ?thesis
        unfolding printSameDepth_enter [OF v(1,2)] printSameDepth_enter [OF v(1,3)]
        by (rule alike_bind, rule sw) (use st in auto)
    qed
  qed
  moreover have "uniform (print (Suc n) F L h v)" for v
    using uniform_deeper [OF d [of v]] by (simp add: print_Suc)
  ultimately show ?case by blast
qed

lemma Fprint_returns_alike:
  assumes "Fprint n F L h snk0 x = Some (Inr r0)"
  shows "\<exists>r. Fprint n F L h snk x = Some (Inr r)"
proof -
  define F2 where "F2 =
    (let F1 = (if Indent F = [] then F\<lparr>Indent := ''    ''\<rparr> else F)
     in if MaxDepth F1 \<le> 0 then F1\<lparr>MaxDepth := 100\<rparr> else F1)"
  have u: "Fprint n F L h k x =
     (case print n F2 L h x \<lparr>w = k, seen = {}, depth = - 1, col = 0, err = None\<rparr> of
           None \<Rightarrow> None
         | Some (Inl p) \<Rightarrow> Some (Inl p)
         | Some (Inr s') \<Rightarrow>
             if err s' \<noteq> None then Some (Inr (w s', err s'))
             else if col s' \<noteq> 0 \<and> \<not> Compact F2
             then Some (Inr (WriteString (w s') [CHR 0x0A]))
             else Some (Inr (w s', None)))" for k
    unfolding Fprint_unfold F2_def Let_def ..
  obtain s' where s': "print n F2 L h x \<lparr>w = snk0, seen = {}, depth = - 1, col = 0, err = None\<rparr>
      = Some (Inr s')"
    using assms unfolding u by (auto split: option.splits sum.splits)
  have "alike (print n F2 L h x \<lparr>w = snk0, seen = {}, depth = - 1, col = 0, err = None\<rparr>)
          (print n F2 L h x \<lparr>w = snk, seen = {}, depth = - 1, col = 0, err = None\<rparr>)"
    using uniform_print_both [of n F2 L h] by (intro uniformD) auto
  then obtain t' where "print n F2 L h x \<lparr>w = snk, seen = {}, depth = - 1, col = 0, err = None\<rparr>
      = Some (Inr t')"
    unfolding s' by (auto simp: alike_def)
  then show ?thesis unfolding u by auto
qed

text \<open>
  C8. A call that returns on some sink (a buffer, say) returns on every sink, however the
  sink's writes fail. What it returns is the error of the first write that failed, if one
  did; that write is the last call made to the sink, so no write is attempted after it;
  and what the sink had taken before is still there. With no error returned, every write
  was taken.
\<close>

theorem Fprint_first_error:
  assumes "Fprint n F L h snk0 x = Some (Inr r0)"
  shows "\<exists>snk' e. Fprint n F L h snk x = Some (Inr (snk', e)) \<and>
           prefix (written snk) (written snk') \<and>
           (case e of
              None \<Rightarrow> (\<forall>i. nwrites snk \<le> i \<and> i < nwrites snk' \<longrightarrow> fails snk i = None)
            | Some er \<Rightarrow>
                (\<exists>k m. nwrites snk' = Suc k \<and> nwrites snk \<le> k \<and> fails snk k = Some (er, m) \<and>
                   (\<forall>i. nwrites snk \<le> i \<and> i < k \<longrightarrow> fails snk i = None)))"
proof -
  obtain r where r: "Fprint n F L h snk x = Some (Inr r)"
    using Fprint_returns_alike [OF assms] by blast
  obtain snk' e where "r = (snk', e)" by (cases r)
  then show ?thesis using r Fprint_trace [of n F L h snk x snk' e] by blast
qed

theorem Fprint_first_error_witness:
  "(\<exists>r0. Fprint 4 (F0\<lparr>Compact := True\<rparr>) gofmt h_234 Buffer v_234 = Some (Inr r0)) \<and>
   (\<exists>snk' e. Fprint 4 (F0\<lparr>Compact := True\<rparr>) gofmt h_234 snk_fail v_234 = Some (Inr (snk', e)) \<and>
      prefix (written snk_fail) (written snk') \<and> e = Some (WriteError 7) \<and>
      nwrites snk' = 3 \<and> written snk' = ''[]{2'')"
proof -
  have "case Fprint 4 (F0\<lparr>Compact := True\<rparr>) gofmt h_234 Buffer v_234 of
          Some (Inr r) \<Rightarrow> True | _ \<Rightarrow> False"
    by code_simp
  then obtain r0 where a: "Fprint 4 (F0\<lparr>Compact := True\<rparr>) gofmt h_234 Buffer v_234 = Some (Inr r0)"
    by (auto split: option.splits sum.splits)
  have b: "map_option (map_sum id (\<lambda>(k, e). (written k, nwrites k, e)))
             (Fprint 4 (F0\<lparr>Compact := True\<rparr>) gofmt h_234 snk_fail v_234) =
           Some (Inr (''[]{2'', 3, Some (WriteError 7)))"
    by code_simp
  from Fprint_first_error [OF a, of snk_fail] obtain snk' e where
    c: "Fprint 4 (F0\<lparr>Compact := True\<rparr>) gofmt h_234 snk_fail v_234 = Some (Inr (snk', e))"
      "prefix (written snk_fail) (written snk')"
    by blast
  from b c(1) have "e = Some (WriteError 7)" "nwrites snk' = 3" "written snk' = ''[]{2''"
    by simp_all
  with a c show ?thesis by blast
qed

section \<open>Pointers, the visited set and truncation\<close>

lemma bind_assoc: "bind (bind r f) g = bind r (\<lambda>s. bind (f s) g)"
  by (simp add: bind_def split: option.splits sum.splits)

lemma bind_ret [simp]: "bind (ret s) f = f s"
  by (simp add: bind_def ret_def)

lemma printSameDepth_first_error:
  "printSameDepth n F L h v s = Some (Inr s') \<Longrightarrow> first_error (w s, err s) (w s', err s')"
  using traces_print_both [OF sink_law_first_error, of n F L h] by (auto dest: tracesD)

lemma print_frame:
  assumes "print n F L h v s = Some (Inr s')"
  shows "seen s' = seen s \<and> depth s' = depth s"
proof -
  have "frames (print n F L h v)" using frames_print_both by blast
  from framesD [OF this assms] show ?thesis .
qed

lemma printSameDepth_frame:
  assumes "printSameDepth n F L h v s = Some (Inr s')"
  shows "seen s' = seen s \<and> depth s' = depth s"
proof -
  have "frames (printSameDepth n F L h v)" using frames_print_both by blast
  from framesD [OF this assms] show ?thesis .
qed

lemma pr_written:
  assumes "err s = None" "reliable (w s)"
  shows "written (w (pr F str s)) =
           written (w s) @
           (if 0 < MaxWidth F \<and> MaxWidth F \<le> col s + int (length str) then [CHR 0x0A] else []) @
           (if \<not> Compact F \<and>
               ((0 < MaxWidth F \<and> MaxWidth F \<le> col s + int (length str)) \<or> col s = 0)
            then concat (replicate (nat (depth s)) (Indent F)) else []) @ str"
proof (cases "0 < MaxWidth F \<and> MaxWidth F \<le> col s + int (length str)")
  case True
  let ?s1 = "write_str [CHR 0x0A] s"
  have c: "checkWidth F str s = ?s1" using True by (simp add: checkWidth_def)
  have f1: "err ?s1 = None" "reliable (w ?s1)" "written (w ?s1) = written (w s) @ [CHR 0x0A]"
    "depth ?s1 = depth s" "col ?s1 = 0"
    using assms by (simp_all add: write_str_reliable_facts write_str_col_newline)
  show ?thesis
    using True assms f1 write_indent_reliable [OF f1(1) f1(2), of F "nat (depth s)"]
    by (simp add: pr_def c Let_def write_str_reliable_facts)
next
  case False
  then have c: "checkWidth F str s = s" by (auto simp add: checkWidth_def)
  have "written (w (pr F str s)) =
      written (w s) @
        (if \<not> Compact F \<and> col s = 0 then concat (replicate (nat (depth s)) (Indent F)) else []) @ str"
    using assms write_indent_reliable [OF assms, of F "nat (depth s)"]
    by (simp add: pr_def c Let_def write_str_reliable_facts)
  then show ?thesis using False by auto
qed

text \<open>
  C5, as the code has it. A pointer that is formatted, neither cut by the depth limit nor
  found in the visited set, is rendered as the marker \<^verbatim>\<open>&\<close> followed by the rendering of
  its referent. The depth counter is incremented once, by \<^verbatim>\<open>print\<close>, for the pointer; the
  referent is rendered by \<^verbatim>\<open>printSameDepth\<close> at that same depth, with no increment of its
  own and without passing the depth guard. On return the depth and the visited set are
  as before, and on a sink that takes its writes, with no width limit and the column not
  at the start of an indented line, the marker is the next thing written.
\<close>

theorem print_pointer:
  assumes "VPointer t p \<notin> seen s" "depth s < MaxDepth F"
  shows "print (Suc (Suc n)) F L h (VPointer t p) s =
           bind (printSameDepth n F L h (Elem h (VPointer t p))
                  (pr F ''&'' (s\<lparr>depth := depth s + 1, seen := insert (VPointer t p) (seen s)\<rparr>)))
             (\<lambda>s1. ret (s1\<lparr>seen := seen s1 - {VPointer t p}, depth := depth s1 - 1\<rparr>)) \<and>
         depth (pr F ''&'' (s\<lparr>depth := depth s + 1, seen := insert (VPointer t p) (seen s)\<rparr>))
           = depth s + 1 \<and>
         (\<forall>s'. print (Suc (Suc n)) F L h (VPointer t p) s = Some (Inr s') \<longrightarrow>
            depth s' = depth s \<and> seen s' = seen s \<and>
            (err s = None \<and> reliable (w s) \<and> MaxWidth F = 0 \<and> (Compact F \<or> col s \<noteq> 0) \<longrightarrow>
               prefix (written (w s) @ ''&'') (written (w s'))))"
proof (intro conjI allI impI)
  let ?v = "VPointer t p"
  let ?s0 = "s\<lparr>depth := depth s + 1, seen := insert ?v (seen s)\<rparr>"
  have v: "IsValid ?v" "tracked ?v" by (simp_all add: IsValid_def tracked_def)
  have nv: "\<not> (tracked ?v \<and> ?v \<in> seen (s\<lparr>depth := depth s + 1\<rparr>))" using assms by simp
  show eq: "print (Suc (Suc n)) F L h ?v s =
      bind (printSameDepth n F L h (Elem h ?v) (pr F ''&'' ?s0))
        (\<lambda>s1. ret (s1\<lparr>seen := seen s1 - {?v}, depth := depth s1 - 1\<rparr>))"
    using assms v
    by (simp add: print_Suc deeper_def Let_def printSameDepth_enter [OF v(1) nv] kind_switch_def
        bind_assoc)
  show "depth (pr F ''&'' ?s0) = depth s + 1" by simp
  fix s'
  assume r: "print (Suc (Suc n)) F L h ?v s = Some (Inr s')"
  from print_frame [OF r] show "depth s' = depth s" "seen s' = seen s" by simp_all
  assume ok: "err s = None \<and> reliable (w s) \<and> MaxWidth F = 0 \<and> (Compact F \<or> col s \<noteq> 0)"
  obtain s1 where s1: "printSameDepth n F L h (Elem h ?v) (pr F ''&'' ?s0) = Some (Inr s1)"
    and s': "s' = s1\<lparr>seen := seen s1 - {?v}, depth := depth s1 - 1\<rparr>"
    using r unfolding eq by (auto simp: bind_Inr)
  have "written (w (pr F ''&'' ?s0)) = written (w s) @ ''&''"
    using ok pr_written [of ?s0 F "''&''"] by auto
  moreover have "prefix (written (w (pr F ''&'' ?s0))) (written (w s1))"
    using printSameDepth_first_error [OF s1] by (simp add: first_error_def)
  ultimately show "prefix (written (w s) @ ''&'') (written (w s'))"
    by (simp add: s')
qed

lemma projected_result:
  "map_option (map_sum id f) r = Some (Inr y) \<Longrightarrow> \<exists>s. r = Some (Inr s) \<and> f s = y"
  by (cases r) (auto simp: map_sum_def split: sum.splits)

theorem print_pointer_witness:
  "VPointer T_pint (Some 1) \<notin> seen (s_depth1\<lparr>depth := 0\<rparr>) \<and>
   depth (s_depth1\<lparr>depth := 0\<rparr>) < MaxDepth F_d1 \<and>
   (\<exists>s'. print (Suc (Suc 2)) F_d1 gofmt h_shared (VPointer T_pint (Some 1))
           (s_depth1\<lparr>depth := 0\<rparr>) = Some (Inr s') \<and>
         depth s' = 0 \<and> seen s' = {} \<and> prefix ''&'' (written (w s')) \<and> written (w s') = ''&5'')"
proof -
  let ?s = "s_depth1\<lparr>depth := 0\<rparr>"
  have a: "VPointer T_pint (Some 1) \<notin> seen ?s" "depth ?s < MaxDepth F_d1"
    by (simp_all add: s_depth1_def F_d1_def F0_def)
  have b: "map_option (map_sum id (\<lambda>s. written (w s)))
             (print (Suc (Suc 2)) F_d1 gofmt h_shared (VPointer T_pint (Some 1)) ?s)
           = Some (Inr ''&5'')"
    by code_simp
  from projected_result [OF b] obtain s' where
    s': "print (Suc (Suc 2)) F_d1 gofmt h_shared (VPointer T_pint (Some 1)) ?s = Some (Inr s')"
    and w: "written (w s') = ''&5''"
    by auto
  have ok: "err ?s = None \<and> reliable (w ?s) \<and> MaxWidth F_d1 = 0 \<and> (Compact F_d1 \<or> col ?s \<noteq> 0)"
    by (simp add: s_depth1_def F_d1_def F0_def reliable_def Buffer_def)
  note pp = print_pointer [OF a, of 2 gofmt h_shared]
  from conjunct2 [OF conjunct2 [OF pp], rule_format, OF s'] ok
  have "depth s' = depth ?s" "seen s' = seen ?s" "prefix (written (w ?s) @ ''&'') (written (w s'))"
    by blast+
  then show ?thesis using a s' w by (auto simp: s_depth1_def Buffer_def)
qed

text \<open>
  The claim as the spec words it, with the depth incremented for the referent, fails: a
  pointer printed at the depth limit renders its referent, where the spec's recursion
  through the guard would render the depth placeholder.
\<close>

theorem pointer_referent_depth_counterexample:
  "map_option (map_sum id (\<lambda>s. written (w s)))
     (kind_switch F_d1 gofmt h_shared (print 3 F_d1 gofmt h_shared)
        (printSameDepth 3 F_d1 gofmt h_shared) (VPointer T_pint (Some 1)) s_depth1)
     = Some (Inr ''&5'') \<and>
   map_option (map_sum id (\<lambda>s. written (w s)))
     (pointer_case_spec F_d1 h_shared (print 3 F_d1 gofmt h_shared) (VPointer T_pint (Some 1))
        s_depth1)
     = Some (Inr ''&<maxdepth>'') \<and>
   Sprint 5 F_d1 gofmt h_shared v_shared = Some (Inr ''[]{&5, &5}'')"
  by code_simp

lemma bind_ret_right [simp]: "bind r (\<lambda>s. ret s) = r"
  by (simp add: bind_def ret_def split: option.splits sum.splits)

text \<open>
  C4. The visited set is a path set. \<^verbatim>\<open>print\<close> and \<^verbatim>\<open>printSameDepth\<close> return it as they
  found it, whichever return they take; a pointer that is not in it is in it for exactly
  the switch on that pointer, and is removed when the switch returns; a value of another
  kind neither reads nor changes it. So a pointer whose subtree has been printed is not
  in the set afterwards, and reaching it again by another path does not find it there.
  (A panic leaves no state to speak of: the traversal state is local to \<^verbatim>\<open>Fprint\<close>, which
  does not recover.)
\<close>

theorem seen_is_path:
  "(\<forall>s'. print n F L h v s = Some (Inr s') \<longrightarrow> seen s' = seen s) \<and>
   (\<forall>s'. printSameDepth n F L h v s = Some (Inr s') \<longrightarrow> seen s' = seen s) \<and>
   (IsValid v \<and> tracked v \<and> v \<notin> seen s \<longrightarrow>
      printSameDepth (Suc n) F L h v s =
        bind (kind_switch F L h (print n F L h) (printSameDepth n F L h) v
               (s\<lparr>seen := insert v (seen s)\<rparr>))
          (\<lambda>s1. ret (s1\<lparr>seen := seen s1 - {v}\<rparr>))) \<and>
   (IsValid v \<and> \<not> tracked v \<longrightarrow>
      printSameDepth (Suc n) F L h v s =
        kind_switch F L h (print n F L h) (printSameDepth n F L h) v s) \<and>
   (\<forall>s1. v \<notin> seen s \<and> print n F L h v s = Some (Inr s1) \<longrightarrow> v \<notin> seen s1)"
proof (intro conjI allI impI)
  fix s'
  assume "print n F L h v s = Some (Inr s')"
  then show "seen s' = seen s" using print_frame by blast
next
  fix s'
  assume "printSameDepth n F L h v s = Some (Inr s')"
  then show "seen s' = seen s" using printSameDepth_frame by blast
next
  assume "IsValid v \<and> tracked v \<and> v \<notin> seen s"
  then show "printSameDepth (Suc n) F L h v s =
        bind (kind_switch F L h (print n F L h) (printSameDepth n F L h) v
               (s\<lparr>seen := insert v (seen s)\<rparr>))
          (\<lambda>s1. ret (s1\<lparr>seen := seen s1 - {v}\<rparr>))"
    by (simp add: printSameDepth_enter)
next
  assume "IsValid v \<and> \<not> tracked v"
  then show "printSameDepth (Suc n) F L h v s =
        kind_switch F L h (print n F L h) (printSameDepth n F L h) v s"
    by (simp add: printSameDepth_enter)
next
  fix s1
  assume "v \<notin> seen s \<and> print n F L h v s = Some (Inr s1)"
  then show "v \<notin> seen s1" using print_frame by blast
qed

theorem seen_is_path_witness:
  "IsValid (VPointer T_pint (Some 1)) \<and> tracked (VPointer T_pint (Some 1)) \<and>
   VPointer T_pint (Some 1) \<notin> seen s_depth1 \<and>
   (\<exists>s'. print 3 F_c5 gofmt h_shared (VPointer T_pint (Some 1)) s_depth1 = Some (Inr s') \<and>
      written (w s') = ''&5'' \<and> seen s' = seen s_depth1 \<and>
      VPointer T_pint (Some 1) \<notin> seen s') \<and>
   Sprint 5 F_c5 gofmt h_shared v_shared = Some (Inr ''[]{&5, &5}'')"
proof -
  let ?v = "VPointer T_pint (Some 1)"
  have a: "IsValid ?v" "tracked ?v" "?v \<notin> seen s_depth1"
    by (simp_all add: IsValid_def tracked_def s_depth1_def)
  have b: "map_option (map_sum id (\<lambda>s. written (w s)))
             (print 3 F_c5 gofmt h_shared ?v s_depth1) = Some (Inr ''&5'')"
    by code_simp
  from projected_result [OF b] obtain s' where
    s': "print 3 F_c5 gofmt h_shared ?v s_depth1 = Some (Inr s')" and w: "written (w s') = ''&5''"
    by auto
  note sp = seen_is_path [of 3 F_c5 gofmt h_shared ?v s_depth1]
  from conjunct1 [OF sp, rule_format, OF s'] have c: "seen s' = seen s_depth1" .
  have d: "Sprint 5 F_c5 gofmt h_shared v_shared = Some (Inr ''[]{&5, &5}'')"
    by code_simp
  show ?thesis using a s' w c d by auto
qed

lemma write_indent_MaxElements [simp]:
  "write_indent (F\<lparr>MaxElements := k\<rparr>) n s = write_indent F n s"
  by (induction n arbitrary: s) simp_all

lemma pr_MaxElements [simp]: "pr (F\<lparr>MaxElements := k\<rparr>) str s = pr F str s"
  by (simp add: pr_def checkWidth_def Let_def)

lemma after_MaxElements [simp]: "after (F\<lparr>MaxElements := k\<rparr>) str s = after F str s"
  by (simp add: after_def checkWidth_def Let_def)

lemma between_MaxElements [simp]: "between (F\<lparr>MaxElements := k\<rparr>) str s = between F str s"
  by (simp add: between_def checkWidth_def Let_def)

lemma printSlice_loop_truncated:
  assumes "0 < MaxElements F" "nat (MaxElements F) < i + length xs" "i \<le> nat (MaxElements F)"
  shows "printSlice_loop F prt len i xs s =
           bind (printSlice_loop (F\<lparr>MaxElements := 0\<rparr>) prt len i
                  (take (nat (MaxElements F) - i) xs) s)
             (\<lambda>s1. ret (if Compact F then pr F ''...'' s1
                        else (let s2 = s1\<lparr>depth := depth s1 + 1\<rparr>;
                                  s3 = pr F (''...'' @ [CHR 0x0A]) s2
                              in s3\<lparr>depth := depth s3 - 1\<rparr>)))"
  using assms
proof (induction xs arbitrary: i s)
  case Nil
  then show ?case by simp
next
  case (Cons x xs)
  show ?case
  proof (cases "i = nat (MaxElements F)")
    case True
    then have "MaxElements F > 0 \<and> int i \<ge> MaxElements F" using Cons.prems by simp
    then show ?thesis using True by (simp add: printSlice_loop_stop)
  next
    case False
    then have lt: "i < nat (MaxElements F)" using Cons.prems by simp
    then have go: "\<not> (MaxElements F > 0 \<and> int i \<ge> MaxElements F)" by auto
    have go': "\<not> (MaxElements (F\<lparr>MaxElements := 0\<rparr>) > 0 \<and>
                 int i \<ge> MaxElements (F\<lparr>MaxElements := 0\<rparr>))" by simp
    have tk: "take (nat (MaxElements F) - i) (x # xs) = x # take (nat (MaxElements F) - Suc i) xs"
      using lt by (simp add: take_Cons')
    have ih: "printSlice_loop F prt len (Suc i) xs s' =
           bind (printSlice_loop (F\<lparr>MaxElements := 0\<rparr>) prt len (Suc i)
                  (take (nat (MaxElements F) - Suc i) xs) s')
             (\<lambda>s1. ret (if Compact F then pr F ''...'' s1
                        else (let s2 = s1\<lparr>depth := depth s1 + 1\<rparr>;
                                  s3 = pr F (''...'' @ [CHR 0x0A]) s2
                              in s3\<lparr>depth := depth s3 - 1\<rparr>)))" for s'
      using Cons.prems lt by (intro Cons.IH) auto
    show ?thesis
      unfolding tk printSlice_loop_step [OF go] printSlice_loop_step [OF go'] bind_assoc ih
      by (simp cong: if_cong)
  qed
qed

lemma printMap_loop_truncated:
  assumes "0 < MaxElements F" "nat (MaxElements F) < i + length keys" "i \<le> nat (MaxElements F)"
  shows "printMap_loop F prt h v len i keys s =
           bind (printMap_loop (F\<lparr>MaxElements := 0\<rparr>) prt h v len i
                  (take (nat (MaxElements F) - i) keys) s)
             (\<lambda>s1. ret (pr F ''...'' s1))"
  using assms
proof (induction keys arbitrary: i s)
  case Nil
  then show ?case by simp
next
  case (Cons key keys)
  show ?case
  proof (cases "i = nat (MaxElements F)")
    case True
    then have "MaxElements F > 0 \<and> int i \<ge> MaxElements F" using Cons.prems by simp
    then show ?thesis using True by (simp add: printMap_loop_stop)
  next
    case False
    then have lt: "i < nat (MaxElements F)" using Cons.prems by simp
    then have go: "\<not> (MaxElements F > 0 \<and> int i \<ge> MaxElements F)" by auto
    have go': "\<not> (MaxElements (F\<lparr>MaxElements := 0\<rparr>) > 0 \<and>
                 int i \<ge> MaxElements (F\<lparr>MaxElements := 0\<rparr>))" by simp
    have tk: "take (nat (MaxElements F) - i) (key # keys) =
        key # take (nat (MaxElements F) - Suc i) keys"
      using lt by (simp add: take_Cons')
    have ih: "printMap_loop F prt h v len (Suc i) keys s' =
           bind (printMap_loop (F\<lparr>MaxElements := 0\<rparr>) prt h v len (Suc i)
                  (take (nat (MaxElements F) - Suc i) keys) s')
             (\<lambda>s1. ret (pr F ''...'' s1))" for s'
      using Cons.prems lt by (intro Cons.IH) auto
    show ?thesis
      unfolding tk printMap_loop_step [OF go] printMap_loop_step [OF go'] bind_assoc ih
      by (simp cong: if_cong)
  qed
qed

text \<open>
  C3, as the code has it. With a limit \<^verbatim>\<open>MaxElements\<close> > 0 and more entries than that, a
  slice or array renders as its opening, then exactly the first \<^verbatim>\<open>MaxElements\<close> entries
  as they render without a limit (each followed by its separator), then one ellipsis
  marker, then the closing brace; a map likewise, on its sorted keys. In compact mode
  \<^verbatim>\<open>[]int{2, 3, 4}\<close> renders as \<^verbatim>\<open>[]{2, 3, ...}\<close> with the limit 2 and as
  \<^verbatim>\<open>[]{2, 3, 4}\<close> with none.
\<close>

theorem truncation:
  assumes "0 < MaxElements F"
  shows "(nat (MaxElements F) < length (elems h v) \<longrightarrow>
            printSlice F prt h v s =
              bind (printSlice_loop (F\<lparr>MaxElements := 0\<rparr>) prt (length (elems h v)) 0
                     (take (nat (MaxElements F)) (elems h v))
                     (let s1 = (if Kind v = KArray
                                then pr F (''['' @ Itoa (int (length (elems h v))) @ '']{'') s
                                else pr F ''[]{'' s)
                      in if \<not> Compact F then pr F [CHR 0x0A] s1 else s1))
                (\<lambda>s1. ret (pr F ''}''
                   (if Compact F then pr F ''...'' s1
                    else (let s2 = s1\<lparr>depth := depth s1 + 1\<rparr>;
                              s3 = pr F (''...'' @ [CHR 0x0A]) s2
                          in s3\<lparr>depth := depth s3 - 1\<rparr>))))) \<and>
         (\<forall>keys. SortFunc (compareValues L h) (MapKeys v) = Inr keys \<and>
            nat (MaxElements F) < length keys \<longrightarrow>
            printMap F L prt h v s =
              bind (printMap_loop (F\<lparr>MaxElements := 0\<rparr>) prt h v (length keys) 0
                     (take (nat (MaxElements F)) keys)
                     (let s1 = pr F ''{'' s in if \<not> Compact F then pr F [CHR 0x0A] s1 else s1))
                (\<lambda>s1. ret (pr F ''}'' (pr F ''...'' s1)))) \<and>
         Sprint 4 (F0\<lparr>Compact := True, MaxElements := 2\<rparr>) gofmt h_234 v_234
           = Some (Inr ''[]{2, 3, ...}'') \<and>
         Sprint 4 (F0\<lparr>Compact := True\<rparr>) gofmt h_234 v_234 = Some (Inr ''[]{2, 3, 4}'')"
proof (intro conjI allI impI)
  assume "nat (MaxElements F) < length (elems h v)"
  then show "printSlice F prt h v s =
              bind (printSlice_loop (F\<lparr>MaxElements := 0\<rparr>) prt (length (elems h v)) 0
                     (take (nat (MaxElements F)) (elems h v))
                     (let s1 = (if Kind v = KArray
                                then pr F (''['' @ Itoa (int (length (elems h v))) @ '']{'') s
                                else pr F ''[]{'' s)
                      in if \<not> Compact F then pr F [CHR 0x0A] s1 else s1))
                (\<lambda>s1. ret (pr F ''}''
                   (if Compact F then pr F ''...'' s1
                    else (let s2 = s1\<lparr>depth := depth s1 + 1\<rparr>;
                              s3 = pr F (''...'' @ [CHR 0x0A]) s2
                          in s3\<lparr>depth := depth s3 - 1\<rparr>))))"
    using assms printSlice_loop_truncated [of F 0 "elems h v" prt "length (elems h v)"]
    by (simp add: printSlice_def Let_def bind_assoc)
next
  fix keys
  assume "SortFunc (compareValues L h) (MapKeys v) = Inr keys \<and> nat (MaxElements F) < length keys"
  then show "printMap F L prt h v s =
              bind (printMap_loop (F\<lparr>MaxElements := 0\<rparr>) prt h v (length keys) 0
                     (take (nat (MaxElements F)) keys)
                     (let s1 = pr F ''{'' s in if \<not> Compact F then pr F [CHR 0x0A] s1 else s1))
                (\<lambda>s1. ret (pr F ''}'' (pr F ''...'' s1)))"
    using assms printMap_loop_truncated [of F 0 keys prt h v "length keys"]
    by (simp add: printMap_def Let_def bind_assoc)
next
  show "Sprint 4 (F0\<lparr>Compact := True, MaxElements := 2\<rparr>) gofmt h_234 v_234
           = Some (Inr ''[]{2, 3, ...}'')"
    by code_simp
next
  show "Sprint 4 (F0\<lparr>Compact := True\<rparr>) gofmt h_234 v_234 = Some (Inr ''[]{2, 3, 4}'')"
    by code_simp
qed

text \<open>
  The claim as the spec words it fails: with all options at their defaults the mode is
  the expanded one, and the slice renders on several lines.
\<close>

theorem default_options_counterexample:
  "Sprint 4 F0 gofmt h_234 v_234 = Some (Inr ''[]{\<newline>    2,\<newline>    3,\<newline>    4,\<newline>}\<newline>'') \<and>
   Sprint 4 (F0\<lparr>MaxElements := 2\<rparr>) gofmt h_234 v_234
     = Some (Inr ''[]{\<newline>    2,\<newline>    3,\<newline>    ...\<newline>}\<newline>'')"
  by code_simp

theorem truncation_witness:
  "0 < MaxElements F_m2 \<and> nat (MaxElements F_m2) < length (elems h_234 v_234) \<and>
   map_option (map_sum id (\<lambda>s. written (w s)))
     (printSlice F_m2 (print 2 F_m2 gofmt h_234) h_234 v_234 s_depth1)
     = Some (Inr ''[]{2, 3, ...}'') \<and>
   map_option (map_sum id (\<lambda>s. written (w s)))
     (bind (printSlice_loop (F_m2\<lparr>MaxElements := 0\<rparr>) (print 2 F_m2 gofmt h_234) 3 0
             (take 2 (elems h_234 v_234)) (pr F_m2 ''[]{'' s_depth1))
        (\<lambda>s1. ret (pr F_m2 ''}'' (pr F_m2 ''...'' s1))))
     = Some (Inr ''[]{2, 3, ...}'') \<and>
   SortFunc (compareValues gofmt h_cba) (MapKeys m_cba)
     = Inr [VString T_string ''a'', VString T_string ''b'', VString T_string ''c''] \<and>
   map_option (map_sum id (\<lambda>s. written (w s)))
     (printMap F_m2 gofmt (print 2 F_m2 gofmt h_cba) h_cba m_cba s_depth1)
     = Some (Inr (''{'' @ [CHR 0x22] @ ''a'' @ [CHR 0x22] @ '': 1, '' @ [CHR 0x22] @ ''b'' @
                  [CHR 0x22] @ '': 2, ...}''))"
proof -
  have a: "0 < MaxElements F_m2" "nat (MaxElements F_m2) < length (elems h_234 v_234)"
    by (simp_all add: F_m2_def v_234_def)
  note t = truncation [OF a(1), of h_234 v_234 "print 2 F_m2 gofmt h_234" s_depth1 gofmt]
  have k: "Kind v_234 \<noteq> KArray" "Compact F_m2" "length (elems h_234 v_234) = 3"
    "nat (MaxElements F_m2) = 2"
    by (simp_all add: v_234_def F_m2_def)
  from conjunct1 [OF t, rule_format, OF a(2)]
  have e: "printSlice F_m2 (print 2 F_m2 gofmt h_234) h_234 v_234 s_depth1 =
      bind (printSlice_loop (F_m2\<lparr>MaxElements := 0\<rparr>) (print 2 F_m2 gofmt h_234) 3 0
             (take 2 (elems h_234 v_234)) (pr F_m2 ''[]{'' s_depth1))
        (\<lambda>s1. ret (pr F_m2 ''}'' (pr F_m2 ''...'' s1)))"
    by (simp add: k Let_def)
  have b: "map_option (map_sum id (\<lambda>s. written (w s)))
     (printSlice F_m2 (print 2 F_m2 gofmt h_234) h_234 v_234 s_depth1)
     = Some (Inr ''[]{2, 3, ...}'')"
    by code_simp
  have c: "SortFunc (compareValues gofmt h_cba) (MapKeys m_cba)
     = Inr [VString T_string ''a'', VString T_string ''b'', VString T_string ''c'']"
    by code_simp
  have d: "map_option (map_sum id (\<lambda>s. written (w s)))
     (printMap F_m2 gofmt (print 2 F_m2 gofmt h_cba) h_cba m_cba s_depth1)
     = Some (Inr (''{'' @ [CHR 0x22] @ ''a'' @ [CHR 0x22] @ '': 1, '' @ [CHR 0x22] @ ''b'' @
                  [CHR 0x22] @ '': 2, ...}''))"
    by code_simp
  have a2: "SortFunc (compareValues gofmt h_cba) (MapKeys m_cba)
              = Inr [VString T_string ''a'', VString T_string ''b'', VString T_string ''c''] \<and>
            nat (MaxElements F_m2) < length [VString T_string ''a'', VString T_string ''b'',
              VString T_string ''c'']"
    using c by (simp add: F_m2_def)
  note t2 = truncation [OF a(1), of h_cba m_cba "print 2 F_m2 gofmt h_cba" s_depth1 gofmt]
  from conjunct1 [OF conjunct2 [OF t2], rule_format, OF a2]
  have e2: "printMap F_m2 gofmt (print 2 F_m2 gofmt h_cba) h_cba m_cba s_depth1 =
      bind (printMap_loop (F_m2\<lparr>MaxElements := 0\<rparr>) (print 2 F_m2 gofmt h_cba) h_cba m_cba 3 0
             (take 2 [VString T_string ''a'', VString T_string ''b'', VString T_string ''c''])
             (pr F_m2 ''{'' s_depth1))
        (\<lambda>s1. ret (pr F_m2 ''}'' (pr F_m2 ''...'' s1)))"
    by (simp add: k Let_def numeral_3_eq_3)
  show ?thesis using a b c d e e2 by simp
qed

end
